theory Spec2Isabelle
  imports Main "HOL-Library.AList"
begin

section \<open>Python values, nodes and errors\<close>

text \<open>
  Modelled from the spec: \<open>nodes.NodeType\<close> (module \<open>nodes\<close> is imported by
  \<open>graphs.py\<close>): the discriminator of a node, variable or factor.
\<close>

datatype NodeType = variable_node | factor_node

text \<open>
  The hashable Python objects that serve as graph nodes. \<open>Plain x\<close> is an object that is
  not an instance of a node class (an int, a string, a tuple: the usual NetworkX nodes):
  it has no \<open>type\<close> attribute and rejects the assignment of a \<open>graph\<close> attribute.
  Modelled from the spec: \<open>nodes.Node\<close>; \<open>Inst k t\<close> is the node instance with object
  identity \<open>k\<close>, whose \<open>type\<close> attribute (immutable after creation) reads \<open>t\<close>.
\<close>

datatype 'a Node = Plain 'a | Inst nat NodeType

fun node_type :: "'a Node \<Rightarrow> NodeType option" where
  "node_type (Plain x) = None"
| "node_type (Inst k t) = Some t"

text \<open>
  Attribute values. Modelled from the spec: \<open>edges.Edge(snode, tnode, init)\<close> is the
  value \<open>EdgeV snode tnode init\<close>, which records its two endpoints and its initial message.
\<close>

datatype 'a val =
    IntV int
  | StrV string
  | NoneV
  | TypeV NodeType
  | NodeV "'a Node"
  | EdgeV "'a Node" "'a Node" "'a val"

datatype 'a error = KeyError "'a val" | AttributeError string | IndexError

type_synonym 'a attrs = "string \<Rightarrow> 'a val option"

section \<open>The graph storage (NetworkX \<open>Graph\<close>)\<close>

text \<open>
  The undirected graph of the NetworkX library, by its contract: \<open>node\<close> is the dictionary
  from nodes to attribute dictionaries, in iteration order; \<open>edge\<close> holds one entry for
  each undirected edge, with its attribute dictionary, in the order of insertion. The
  adjacency dictionary of a node is read off this list by \<open>adj\<close>.
\<close>

record 'a Graph =
  node :: "('a Node \<times> 'a attrs) list"
  edge :: "(('a Node \<times> 'a Node) \<times> 'a attrs) list"

definition empty_graph :: "'a Graph" where
  "empty_graph = \<lparr>node = [], edge = []\<rparr>"

definition nodes :: "'a Graph \<Rightarrow> 'a Node list" where
  "nodes G = map fst (node G)"

definition number_of_nodes :: "'a Graph \<Rightarrow> nat" where
  "number_of_nodes G = length (node G)"

definition number_of_edges :: "'a Graph \<Rightarrow> nat" where
  "number_of_edges G = length (edge G)"

definition has_node :: "'a Graph \<Rightarrow> 'a Node \<Rightarrow> bool" where
  "has_node G n = (n \<in> set (nodes G))"

text \<open>
  \<open>adj[n].items()\<close>: the neighbours of \<open>n\<close> with the attribute dictionaries of the edges
  to them, in the order in which these edges were inserted.
\<close>

definition other_end :: "'n \<times> 'n \<Rightarrow> 'n \<Rightarrow> 'n" where
  "other_end e n = (if fst e = n then snd e else fst e)"

definition adj :: "'a Graph \<Rightarrow> 'a Node \<Rightarrow> ('a Node \<times> 'a attrs) list" where
  "adj G n = map (\<lambda>(e, d). (other_end e n, d)) (filter (\<lambda>(e, d). fst e = n \<or> snd e = n) (edge G))"

text \<open>
  \<open>edges_iter(data=True)\<close>: for each node \<open>n\<close>, in the order of the node dictionary, the
  edges \<open>(n, nbr)\<close> to the neighbours of \<open>n\<close> that have not had their own turn; a node
  is marked as seen after its turn.
\<close>

fun edges_from ::
  "'a Graph \<Rightarrow> 'a Node list \<Rightarrow> 'a Node list \<Rightarrow> (('a Node \<times> 'a Node) \<times> 'a attrs) list"
where
  "edges_from G [] seen = []"
| "edges_from G (n # ns) seen =
     map (\<lambda>(nbr, d). ((n, nbr), d)) (filter (\<lambda>(nbr, d). nbr \<notin> set seen) (adj G n))
       @ edges_from G ns (n # seen)"

definition edges_iter :: "'a Graph \<Rightarrow> (('a Node \<times> 'a Node) \<times> 'a attrs) list" where
  "edges_iter G = edges_from G (nodes G) []"

definition edges :: "'a Graph \<Rightarrow> ('a Node \<times> 'a Node) list" where
  "edges G = map fst (edges_iter G)"

text \<open>
  \<open>add_node(n, attr_dict)\<close>: a new node is stored with the given attributes; for a node
  already present the attributes are updated.
\<close>

definition add_node :: "'a Node \<Rightarrow> 'a attrs \<Rightarrow> 'a Graph \<Rightarrow> 'a Graph" where
  "add_node n attr_dict G =
     (case map_of (node G) n of
        None \<Rightarrow> G\<lparr>node := AList.update n attr_dict (node G)\<rparr>
      | Some d \<Rightarrow> G\<lparr>node := AList.update n (d ++ attr_dict) (node G)\<rparr>)"

fun same_edge :: "'n \<times> 'n \<Rightarrow> 'n \<times> 'n \<Rightarrow> bool" where
  "same_edge (a, b) (u, v) = ((a = u \<and> b = v) \<or> (a = v \<and> b = u))"

fun put_edge ::
  "'n \<times> 'n \<Rightarrow> 'a attrs \<Rightarrow> (('n \<times> 'n) \<times> 'a attrs) list \<Rightarrow> (('n \<times> 'n) \<times> 'a attrs) list"
where
  "put_edge e attr [] = [(e, attr)]"
| "put_edge e attr ((e', d) # es) =
     (if same_edge e' e then (e', d ++ attr) # es else (e', d) # put_edge e attr es)"

text \<open>
  \<open>add_edge(u, v, **attr)\<close>: endpoints that are not in the graph are inserted with an
  empty attribute dictionary; the attributes of the undirected edge are updated.
\<close>

definition add_edge :: "'a Node \<Rightarrow> 'a Node \<Rightarrow> 'a attrs \<Rightarrow> 'a Graph \<Rightarrow> 'a Graph" where
  "add_edge u v attr G =
     (let G1 = (if has_node G u then G else G\<lparr>node := node G @ [(u, Map.empty)]\<rparr>);
          G2 = (if has_node G1 v then G1 else G1\<lparr>node := node G1 @ [(v, Map.empty)]\<rparr>)
      in G2\<lparr>edge := put_edge (u, v) attr (edge G2)\<rparr>)"

text \<open>\<open>mapping.get(n, n)\<close>\<close>

definition get_default :: "('k \<times> 'k) list \<Rightarrow> 'k \<Rightarrow> 'k" where
  "get_default mapping n = (case map_of mapping n of None \<Rightarrow> n | Some m \<Rightarrow> m)"

text \<open>
  \<open>relabel_nodes(G, mapping)\<close> with its default \<open>copy=True\<close>: a new graph receives the
  relabelled edges of \<open>edges_iter\<close> with copies of their attributes, then the relabelled
  nodes, then the copies of the node attributes.
\<close>

definition relabel_copy :: "'a Graph \<Rightarrow> ('a Node \<times> 'a Node) list \<Rightarrow> 'a Graph" where
  "relabel_copy G mapping =
     (let H1 = fold (\<lambda>((n1, n2), d). add_edge (get_default mapping n1) (get_default mapping n2) d)
                 (edges_iter G) empty_graph;
          H2 = fold (\<lambda>n. add_node (get_default mapping n) Map.empty) (nodes G) H1
      in H2\<lparr>node := fold (\<lambda>(n, d). AList.update (get_default mapping n) d) (node G) (node H2)\<rparr>)"

section \<open>The object store\<close>

text \<open>
  Graph objects live in a store and are passed by reference: \<open>graphs h r\<close> is the graph
  object at reference \<open>r\<close>, references below \<open>next_ref h\<close> are allocated, and \<open>owner h k\<close>
  is the \<open>graph\<close> back-reference of the node instance with identity \<open>k\<close>.
\<close>

record 'a heap =
  graphs :: "nat \<Rightarrow> 'a Graph"
  next_ref :: nat
  owner :: "nat \<Rightarrow> nat option"

definition new_graph :: "'a Graph \<Rightarrow> 'a heap \<Rightarrow> nat \<times> 'a heap" where
  "new_graph G h =
     (next_ref h, h\<lparr>graphs := (graphs h)(next_ref h := G), next_ref := Suc (next_ref h)\<rparr>)"

definition relabel_nodes :: "nat \<Rightarrow> ('a Node \<times> 'a Node) list \<Rightarrow> 'a heap \<Rightarrow> nat \<times> 'a heap" where
  "relabel_nodes g mapping h = new_graph (relabel_copy (graphs h g) mapping) h"

section \<open>Class \<open>FactorGraph\<close>\<close>

definition FactorGraph :: "'a heap \<Rightarrow> nat \<times> 'a heap" where
  "FactorGraph h = new_graph empty_graph h"

definition set_node :: "nat \<Rightarrow> 'a Node \<Rightarrow> 'a attrs \<Rightarrow> 'a heap \<Rightarrow> 'a error + 'a heap" where
  "set_node self n attr h =
     (case n of
        Plain x \<Rightarrow> Inl (AttributeError ''graph'')
      | Inst k t \<Rightarrow>
          Inr (h\<lparr>graphs := (graphs h)(self := add_node n (attr(''type'' \<mapsto> TypeV t)) (graphs h self)),
                 owner := (owner h)(k \<mapsto> self)\<rparr>))"

fun set_nodes :: "nat \<Rightarrow> 'a Node list \<Rightarrow> 'a heap \<Rightarrow> 'a error + 'a heap" where
  "set_nodes self [] h = Inr h"
| "set_nodes self (n # ns) h =
     (case set_node self n Map.empty h of
        Inl e \<Rightarrow> Inl e
      | Inr h' \<Rightarrow> set_nodes self ns h')"

definition set_edge :: "nat \<Rightarrow> 'a Node \<Rightarrow> 'a Node \<Rightarrow> 'a val \<Rightarrow> 'a heap \<Rightarrow> 'a heap" where
  "set_edge self snode tnode init h =
     h\<lparr>graphs := (graphs h)(self :=
          add_edge snode tnode [''object'' \<mapsto> EdgeV snode tnode init] (graphs h self))\<rparr>"

fun set_edges :: "nat \<Rightarrow> ('a Node \<times> 'a Node) list \<Rightarrow> 'a heap \<Rightarrow> 'a heap" where
  "set_edges self [] h = h"
| "set_edges self ((snode, tnode) # es) h = set_edges self es (set_edge self snode tnode NoneV h)"

text \<open>
  The list comprehension \<open>[n for (n, d) in nodes(data=True) if d[key] == v]\<close>: reading
  the key of a dictionary that lacks it raises \<open>KeyError\<close>.
\<close>

fun select_nodes ::
  "string \<Rightarrow> 'a val \<Rightarrow> ('a Node \<times> 'a attrs) list \<Rightarrow> 'a error + 'a Node list"
where
  "select_nodes key v [] = Inr []"
| "select_nodes key v ((n, d) # nds) =
     (case d key of
        None \<Rightarrow> Inl (KeyError (StrV key))
      | Some x \<Rightarrow>
          (case select_nodes key v nds of
             Inl e \<Rightarrow> Inl e
           | Inr ns \<Rightarrow> Inr (if x = v then n # ns else ns)))"

definition get_vnodes :: "nat \<Rightarrow> 'a heap \<Rightarrow> 'a error + 'a Node list" where
  "get_vnodes self h = select_nodes ''type'' (TypeV variable_node) (node (graphs h self))"

definition get_fnodes :: "nat \<Rightarrow> 'a heap \<Rightarrow> 'a error + 'a Node list" where
  "get_fnodes self h = select_nodes ''type'' (TypeV factor_node) (node (graphs h self))"

section \<open>Function \<open>convert_to_fg\<close>\<close>

text \<open>\<open>list.pop()\<close> removes and returns the last item.\<close>

definition pop :: "'b list \<Rightarrow> 'a error + ('b \<times> 'b list)" where
  "pop xs = (if xs = [] then Inl IndexError else Inr (last xs, butlast xs))"

text \<open>\<open>mapping.update((n, obj_box.pop()) for n in ns)\<close>\<close>

fun update_pop ::
  "('k \<times> 'k) list \<Rightarrow> 'k list \<Rightarrow> 'k list \<Rightarrow> 'a error + ('k \<times> 'k) list"
where
  "update_pop mapping [] obj_box = Inr mapping"
| "update_pop mapping (n # ns) obj_box =
     (case pop obj_box of
        Inl e \<Rightarrow> Inl e
      | Inr (x, obj_box') \<Rightarrow> update_pop (AList.update n x mapping) ns obj_box')"

text \<open>
  \<open>set_node_attributes(G, name, values)\<close>: \<open>G.node[n][name] = value\<close> for each item of
  the dictionary \<open>values\<close>.
\<close>

fun set_node_attributes ::
  "nat \<Rightarrow> string \<Rightarrow> ('a Node \<times> 'a val) list \<Rightarrow> 'a heap \<Rightarrow> 'a error + 'a heap"
where
  "set_node_attributes G name [] h = Inr h"
| "set_node_attributes G name ((n, v) # values) h =
     (case map_of (node (graphs h G)) n of
        None \<Rightarrow> Inl (KeyError (NodeV n))
      | Some d \<Rightarrow>
          set_node_attributes G name values
            (h\<lparr>graphs := (graphs h)(G :=
                 (graphs h G)\<lparr>node := AList.update n (d(name \<mapsto> v)) (node (graphs h G))\<rparr>)\<rparr>))"

text \<open>The bipartite branch, lines 156 to 167: it returns the mapping and the store.\<close>

definition convert_bipartite ::
  "nat \<Rightarrow> nat \<Rightarrow> (nat \<Rightarrow> 'a Node) \<Rightarrow> (nat \<Rightarrow> 'a val \<Rightarrow> 'a Node) \<Rightarrow> ('a Node \<times> 'a Node) list
     \<Rightarrow> 'a heap \<Rightarrow> 'a error + (('a Node \<times> 'a Node) list \<times> 'a heap)"
where
  "convert_bipartite graph fgraph vnode fnode mapping h =
     (case select_nodes ''bipartite'' (IntV 0) (node (graphs h graph)) of
        Inl e \<Rightarrow> Inl e
      | Inr vn \<Rightarrow>
     (case select_nodes ''bipartite'' (IntV 1) (node (graphs h graph)) of
        Inl e \<Rightarrow> Inl e
      | Inr fn \<Rightarrow>
     (case update_pop mapping vn (map vnode [0..<length vn]) of
        Inl e \<Rightarrow> Inl e
      | Inr mapping1 \<Rightarrow>
     (case update_pop mapping1 fn (map (\<lambda>i. fnode i NoneV) [0..<length fn]) of
        Inl e \<Rightarrow> Inl e
      | Inr mapping2 \<Rightarrow>
     (case relabel_nodes graph mapping2 h of (graph', h1) \<Rightarrow>
     (case set_nodes fgraph (nodes (graphs h1 graph')) h1 of
        Inl e \<Rightarrow> Inl e
      | Inr h2 \<Rightarrow> Inr (mapping2, set_edges fgraph (edges (graphs h2 graph')) h2)))))))"

text \<open>The loop of lines 176 to 179, over the edges of the relabelled graph.\<close>

fun add_factors ::
  "nat \<Rightarrow> (nat \<Rightarrow> 'a val \<Rightarrow> 'a Node) \<Rightarrow> ('a Node \<times> 'a Node) list \<Rightarrow> nat list \<Rightarrow> 'a heap
     \<Rightarrow> 'a error + 'a heap"
where
  "add_factors fgraph fnode [] i h = Inr h"
| "add_factors fgraph fnode (e # es) i h =
     (case pop i of
        Inl err \<Rightarrow> Inl err
      | Inr (k, i') \<Rightarrow>
          (let n = fnode k NoneV in
           case set_node fgraph n Map.empty h of
             Inl err \<Rightarrow> Inl err
           | Inr h1 \<Rightarrow>
               add_factors fgraph fnode es i' (set_edges fgraph [(fst e, n), (n, snd e)] h1)))"

text \<open>The other branch, lines 169 to 179.\<close>

definition convert_plain ::
  "nat \<Rightarrow> nat \<Rightarrow> (nat \<Rightarrow> 'a Node) \<Rightarrow> (nat \<Rightarrow> 'a val \<Rightarrow> 'a Node) \<Rightarrow> ('a Node \<times> 'a Node) list
     \<Rightarrow> 'a heap \<Rightarrow> 'a error + (('a Node \<times> 'a Node) list \<times> 'a heap)"
where
  "convert_plain graph fgraph vnode fnode mapping h =
     (case update_pop mapping (nodes (graphs h graph))
             (map vnode [0..<number_of_nodes (graphs h graph)]) of
        Inl e \<Rightarrow> Inl e
      | Inr mapping1 \<Rightarrow>
     (case relabel_nodes graph mapping1 h of (graph', h1) \<Rightarrow>
     (case set_nodes fgraph (nodes (graphs h1 graph')) h1 of
        Inl e \<Rightarrow> Inl e
      | Inr h2 \<Rightarrow>
     (case add_factors fgraph fnode (edges (graphs h2 graph'))
             [0..<number_of_edges (graphs h2 graph')] h2 of
        Inl e \<Rightarrow> Inl e
      | Inr h3 \<Rightarrow> Inr (mapping1, h3)))))"

text \<open>\<open>{v: k for k, v in mapping.items()}\<close>\<close>

definition invert :: "('a Node \<times> 'a Node) list \<Rightarrow> ('a Node \<times> 'a val) list" where
  "invert mapping = fold (\<lambda>(k, v). AList.update v (NodeV k)) mapping []"

definition convert_to_fg ::
  "nat \<Rightarrow> (nat \<Rightarrow> 'a Node) \<Rightarrow> (nat \<Rightarrow> 'a val \<Rightarrow> 'a Node) \<Rightarrow> bool \<Rightarrow> 'a heap
     \<Rightarrow> 'a error + (nat \<times> 'a heap)"
where
  "convert_to_fg graph vnode fnode bipartite h =
     (let mapping = zip (nodes (graphs h graph)) (nodes (graphs h graph)) in
      case FactorGraph h of (fgraph, h0) \<Rightarrow>
      (case (if bipartite then convert_bipartite graph fgraph vnode fnode mapping h0
             else convert_plain graph fgraph vnode fnode mapping h0) of
         Inl e \<Rightarrow> Inl e
       | Inr (mapping', h1) \<Rightarrow>
           (case set_node_attributes fgraph ''origin'' (invert mapping') h1 of
              Inl e \<Rightarrow> Inl e
            | Inr h2 \<Rightarrow> Inr (fgraph, h2))))"

section \<open>Well-formed graphs and attributes\<close>

text \<open>
  The keys of the edge dictionary; the attribute \<open>key\<close> of a node, \<open>None\<close> when the node
  or the attribute is missing; the relabelling of an edge. A graph object of NetworkX has
  distinct nodes, has both endpoints of every edge among its nodes and stores an undirected
  edge once (\<open>is_graph\<close>); it is \<open>loop_free\<close> when no edge joins a node to itself.
\<close>

abbreviation edge_keys :: "'a Graph \<Rightarrow> ('a Node \<times> 'a Node) list" where
  "edge_keys G \<equiv> map fst (edge G)"

fun no_dup_edges :: "('n \<times> 'n) list \<Rightarrow> bool" where
  "no_dup_edges [] = True"
| "no_dup_edges (e # es) = ((\<forall>e' \<in> set es. \<not> same_edge e' e) \<and> no_dup_edges es)"

definition relabel_edge :: "('n \<Rightarrow> 'n) \<Rightarrow> 'n \<times> 'n \<Rightarrow> 'n \<times> 'n" where
  "relabel_edge g e = (g (fst e), g (snd e))"

definition node_attr :: "'a Graph \<Rightarrow> 'a Node \<Rightarrow> string \<Rightarrow> 'a val option" where
  "node_attr G n key = (case map_of (node G) n of None \<Rightarrow> None | Some d \<Rightarrow> d key)"

definition is_graph :: "'a Graph \<Rightarrow> bool" where
  "is_graph G = (distinct (nodes G)
     \<and> (\<forall>e \<in> set (edge_keys G). fst e \<in> set (nodes G) \<and> snd e \<in> set (nodes G))
     \<and> no_dup_edges (edge_keys G))"

definition loop_free :: "'a Graph \<Rightarrow> bool" where
  "loop_free G = (\<forall>e \<in> set (edge_keys G). fst e \<noteq> snd e)"

section \<open>Example inputs\<close>

text \<open>A store whose only graph object, at reference 0, is the given graph.\<close>

definition store_of :: "nat Graph \<Rightarrow> nat heap" where
  "store_of G = \<lparr>graphs = (\<lambda>r. if r = 0 then G else empty_graph), next_ref = 1,
                  owner = (\<lambda>k. None)\<rparr>"

text \<open>The path a - b - c on plain nodes 1, 2, 3, without attributes.\<close>

definition path_graph :: "nat Graph" where
  "path_graph =
     \<lparr>node = [(Plain 1, Map.empty), (Plain 2, Map.empty), (Plain 3, Map.empty)],
      edge = [((Plain 1, Plain 2), Map.empty), ((Plain 2, Plain 3), Map.empty)]\<rparr>"

text \<open>Plain nodes 1 and 2 on the variable side, 3 on the factor side, edges 1 - 3 and 2 - 3.\<close>

definition bip_graph :: "nat Graph" where
  "bip_graph =
     \<lparr>node = [(Plain 1, [''bipartite'' \<mapsto> IntV 0]), (Plain 2, [''bipartite'' \<mapsto> IntV 0]),
              (Plain 3, [''bipartite'' \<mapsto> IntV 1])],
      edge = [((Plain 1, Plain 3), Map.empty), ((Plain 2, Plain 3), Map.empty)]\<rparr>"

text \<open>A factor graph with one variable node, one factor node and the edge between them.\<close>

definition small_fg :: "nat Graph" where
  "small_fg =
     \<lparr>node = [(Inst 0 variable_node, [''type'' \<mapsto> TypeV variable_node]),
              (Inst 1 factor_node, [''type'' \<mapsto> TypeV factor_node])],
      edge = [((Inst 0 variable_node, Inst 1 factor_node), Map.empty)]\<rparr>"

text \<open>Node factories: instances with even identities are variables, with odd ones factors.\<close>

definition ex_vnode :: "nat \<Rightarrow> nat Node" where
  "ex_vnode i = Inst (2 * i) variable_node"

definition ex_fnode :: "nat \<Rightarrow> nat val \<Rightarrow> nat Node" where
  "ex_fnode i payload = Inst (2 * i + 1) factor_node"

section \<open>The graph storage: basic facts\<close>

lemma nodes_add_node:
  "nodes (add_node n a G) = (if n \<in> set (nodes G) then nodes G else nodes G @ [n])"
  by (simp add: add_node_def nodes_def AList.update_keys split: option.splits)

lemma edge_add_node [simp]: "edge (add_node n a G) = edge G"
  by (simp add: add_node_def split: option.splits)

lemma map_of_add_node:
  "map_of (node (add_node n a G)) =
     (map_of (node G))(n \<mapsto> (case map_of (node G) n of None \<Rightarrow> a | Some d \<Rightarrow> d ++ a))"
  by (simp add: add_node_def AList.update_conv' split: option.splits)

lemma length_node_add_node:
  "number_of_nodes (add_node n a G) = (if has_node G n then number_of_nodes G else Suc (number_of_nodes G))"
proof -
  have "length (nodes (add_node n a G)) = (if n \<in> set (nodes G) then length (nodes G) else Suc (length (nodes G)))"
    by (simp add: nodes_add_node)
  then show ?thesis by (simp add: nodes_def number_of_nodes_def has_node_def)
qed

section \<open>Inserting nodes\<close>

text \<open>
  Claim C6. For a node whose type is set (a node instance \<open>Inst k t\<close>), \<open>set_node\<close> does
  not raise; it sets the back-reference of the node to the graph it is called on, and the
  node is afterwards in the graph with the attribute \<open>type\<close> equal to the type of the
  node, together with every supplied keyword attribute. For a node that is already present
  the attributes are updated (the old ones are kept unless overwritten) and the nodes, hence
  their number, stay as they are; a new node is added at the end.
\<close>

theorem set_node_inserts:
  "\<exists>h' d. set_node self (Inst k t) attr h = Inr h'
     \<and> owner h' k = Some self
     \<and> map_of (node (graphs h' self)) (Inst k t) = Some d
     \<and> d ''type'' = Some (TypeV t)
     \<and> (\<forall>a v. a \<noteq> ''type'' \<and> attr a = Some v \<longrightarrow> d a = Some v)
     \<and> d = (case map_of (node (graphs h self)) (Inst k t) of
              None \<Rightarrow> attr(''type'' \<mapsto> TypeV t)
            | Some d0 \<Rightarrow> d0 ++ attr(''type'' \<mapsto> TypeV t))
     \<and> nodes (graphs h' self) =
         (if has_node (graphs h self) (Inst k t) then nodes (graphs h self)
          else nodes (graphs h self) @ [Inst k t])
     \<and> number_of_nodes (graphs h' self) =
         (if has_node (graphs h self) (Inst k t) then number_of_nodes (graphs h self)
          else Suc (number_of_nodes (graphs h self)))
     \<and> edge (graphs h' self) = edge (graphs h self)"
proof (cases "map_of (node (graphs h self)) (Inst k t)")
  case None
  then have "\<not> has_node (graphs h self) (Inst k t)"
    by (simp add: has_node_def nodes_def map_of_eq_None_iff)
  with None show ?thesis
    by (simp add: set_node_def map_of_add_node nodes_add_node length_node_add_node has_node_def)
next
  case (Some d0)
  then have "has_node (graphs h self) (Inst k t)"
    by (auto simp: has_node_def nodes_def dest: map_of_SomeD intro: rev_image_eqI)
  with Some show ?thesis
    by (simp add: set_node_def map_of_add_node nodes_add_node length_node_add_node has_node_def
          map_add_def)
qed

theorem set_node_inserts_witness:
  "has_node (graphs (store_of small_fg) 0) (Inst 0 variable_node)
   \<and> (\<exists>h' d. set_node 0 (Inst 0 variable_node) [''label'' \<mapsto> StrV ''x''] (store_of small_fg) = Inr h'
        \<and> owner h' 0 = Some 0
        \<and> map_of (node (graphs h' 0)) (Inst 0 variable_node) = Some d
        \<and> d ''type'' = Some (TypeV variable_node)
        \<and> d ''label'' = Some (StrV ''x'')
        \<and> number_of_nodes (graphs h' 0) = 2)"
proof -
  have p: "has_node (graphs (store_of small_fg) 0) (Inst 0 variable_node)"
    by (simp add: has_node_def nodes_def store_of_def small_fg_def)
  have n: "number_of_nodes (graphs (store_of small_fg) 0) = 2"
    by (simp add: number_of_nodes_def store_of_def small_fg_def)
  have a: "''label'' \<noteq> ''type'' \<and> [''label'' \<mapsto> StrV ''x''] ''label'' = Some (StrV ''x'')"
    by simp
  from set_node_inserts [of 0 0 variable_node "[''label'' \<mapsto> StrV ''x'']" "store_of small_fg"]
  obtain h' d where
    "set_node 0 (Inst 0 variable_node) [''label'' \<mapsto> StrV ''x''] (store_of small_fg) = Inr h'"
    "owner h' 0 = Some 0"
    "map_of (node (graphs h' 0)) (Inst 0 variable_node) = Some d"
    "d ''type'' = Some (TypeV variable_node)"
    "\<forall>a v. a \<noteq> ''type'' \<and> [''label'' \<mapsto> StrV ''x''] a = Some v \<longrightarrow> d a = Some v"
    "number_of_nodes (graphs h' 0) =
       (if has_node (graphs (store_of small_fg) 0) (Inst 0 variable_node)
        then number_of_nodes (graphs (store_of small_fg) 0)
        else Suc (number_of_nodes (graphs (store_of small_fg) 0)))"
    by blast
  with p n a show ?thesis by (metis (full_types))
qed

section \<open>Typed retrieval\<close>

lemma select_nodes_ok:
  "\<forall>(n, d) \<in> set nds. d key \<noteq> None \<Longrightarrow>
   select_nodes key v nds = Inr (map fst (filter (\<lambda>(n, d). d key = Some v) nds))"
  by (induction nds) (auto split: option.splits)

lemma select_nodes_fail:
  "(n, d) \<in> set nds \<Longrightarrow> d key = None \<Longrightarrow> select_nodes key v nds = Inl (KeyError (StrV key))"
proof (induction nds)
  case Nil then show ?case by simp
next
  case (Cons p nds)
  obtain m c where p: "p = (m, c)" by (cases p)
  show ?case
  proof (cases "c key")
    case None then show ?thesis by (simp add: p)
  next
    case (Some x)
    with Cons p have "(n, d) \<in> set nds" by auto
    with Cons have "select_nodes key v nds = Inl (KeyError (StrV key))" by simp
    then show ?thesis by (simp add: p Some)
  qed
qed

text \<open>
  Claim C7. On a graph all of whose nodes carry a \<open>type\<close> attribute, \<open>get_vnodes\<close>
  returns exactly the nodes whose type is variable and \<open>get_fnodes\<close> exactly those whose
  type is factor, both in the iteration order of the graph; the two results are disjoint,
  and together they are the nodes whose type is one of the two node types.
\<close>

theorem get_vnodes_get_fnodes_partition:
  assumes typed: "\<forall>(n, d) \<in> set (node (graphs h self)). d ''type'' \<noteq> None"
    and dist: "distinct (nodes (graphs h self))"
  shows "\<exists>vs fs. get_vnodes self h = Inr vs \<and> get_fnodes self h = Inr fs
     \<and> vs = map fst (filter (\<lambda>(n, d). d ''type'' = Some (TypeV variable_node)) (node (graphs h self)))
     \<and> fs = map fst (filter (\<lambda>(n, d). d ''type'' = Some (TypeV factor_node)) (node (graphs h self)))
     \<and> set vs \<inter> set fs = {}
     \<and> set vs \<union> set fs =
         {n. \<exists>d t. (n, d) \<in> set (node (graphs h self)) \<and> d ''type'' = Some (TypeV t)}"
proof -
  let ?nd = "node (graphs h self)"
  let ?vs = "map fst (filter (\<lambda>(n, d). d ''type'' = Some (TypeV variable_node)) ?nd)"
  let ?fs = "map fst (filter (\<lambda>(n, d). d ''type'' = Some (TypeV factor_node)) ?nd)"
  have v: "get_vnodes self h = Inr ?vs"
    unfolding get_vnodes_def by (rule select_nodes_ok [OF typed])
  have f: "get_fnodes self h = Inr ?fs"
    unfolding get_fnodes_def by (rule select_nodes_ok [OF typed])
  have uniq: "(n, d) \<in> set ?nd \<Longrightarrow> (n, d') \<in> set ?nd \<Longrightarrow> d = d'" for n d d'
    using dist unfolding nodes_def by (meson eq_key_imp_eq_value)
  have disj: "set ?vs \<inter> set ?fs = {}"
    using uniq by fastforce
  have cover: "set ?vs \<union> set ?fs = {n. \<exists>d t. (n, d) \<in> set ?nd \<and> d ''type'' = Some (TypeV t)}"
  proof (rule set_eqI)
    fix n
    show "n \<in> set ?vs \<union> set ?fs \<longleftrightarrow> n \<in> {n. \<exists>d t. (n, d) \<in> set ?nd \<and> d ''type'' = Some (TypeV t)}"
    proof
      assume "n \<in> set ?vs \<union> set ?fs"
      then show "n \<in> {n. \<exists>d t. (n, d) \<in> set ?nd \<and> d ''type'' = Some (TypeV t)}" by auto
    next
      assume "n \<in> {n. \<exists>d t. (n, d) \<in> set ?nd \<and> d ''type'' = Some (TypeV t)}"
      then obtain d t where nd: "(n, d) \<in> set ?nd" and ty: "d ''type'' = Some (TypeV t)" by blast
      show "n \<in> set ?vs \<union> set ?fs"
      proof (cases t)
        case variable_node
        with nd ty have "n \<in> set ?vs" by force
        then show ?thesis by simp
      next
        case factor_node
        with nd ty have "n \<in> set ?fs" by force
        then show ?thesis by simp
      qed
    qed
  qed
  from v f disj cover show ?thesis by blast
qed

theorem get_vnodes_get_fnodes_partition_witness:
  "distinct (nodes (graphs (store_of small_fg) 0))
   \<and> map (\<lambda>(n, d). d ''type'') (node (graphs (store_of small_fg) 0))
       = [Some (TypeV variable_node), Some (TypeV factor_node)]
   \<and> get_vnodes 0 (store_of small_fg) = Inr [Inst 0 variable_node]
   \<and> get_fnodes 0 (store_of small_fg) = Inr [Inst 1 factor_node]"
proof -
  have t: "\<forall>(n, d) \<in> set (node (graphs (store_of small_fg) 0)). d ''type'' \<noteq> None"
    by (simp add: store_of_def small_fg_def)
  have d: "distinct (nodes (graphs (store_of small_fg) 0))"
    by (simp add: store_of_def small_fg_def nodes_def)
  from get_vnodes_get_fnodes_partition [OF t d] t d show ?thesis
    by (simp add: store_of_def small_fg_def)
qed

section \<open>Inserting edges\<close>

lemma put_edge_has:
  "\<exists>e' \<in> fst ` set (put_edge (u, v) a es). same_edge e' (u, v)"
proof (induction es)
  case Nil then show ?case by simp
next
  case (Cons p es)
  obtain e' d where p: "p = (e', d)" by (cases p)
  show ?case
  proof (cases "same_edge e' (u, v)")
    case True then show ?thesis by (simp add: p)
  next
    case False with Cons show ?thesis by (simp add: p)
  qed
qed

lemma nodes_add_edge:
  "nodes (add_edge u v a G) =
     (let ns = (if u \<in> set (nodes G) then nodes G else nodes G @ [u])
      in if v \<in> set ns then ns else ns @ [v])"
  by (simp add: add_edge_def has_node_def nodes_def Let_def)

lemma node_add_edge:
  "node (add_edge u v a G) =
     (let ns = (if u \<in> set (nodes G) then node G else node G @ [(u, Map.empty)])
      in if v \<in> fst ` set ns then ns else ns @ [(v, Map.empty)])"
  by (simp add: add_edge_def has_node_def nodes_def Let_def)

lemma edge_add_edge: "edge (add_edge u v a G) = put_edge (u, v) a (edge G)"
  by (simp add: add_edge_def Let_def)

lemma edges_from_has:
  assumes "(e, d) \<in> set (edge G)" "fst e \<in> set ns" "snd e \<in> set ns"
    and "fst e \<notin> set seen" "snd e \<notin> set seen"
  shows "\<exists>e' \<in> fst ` set (edges_from G ns seen). same_edge e' e"
  using assms
proof (induction ns arbitrary: seen)
  case Nil then show ?case by simp
next
  case (Cons n ns)
  show ?case
  proof (cases "fst e = n \<or> snd e = n")
    case True
    have "(other_end e n, d) \<in> set (adj G n)"
      using True Cons.prems(1) by (force simp: adj_def)
    moreover have "other_end e n \<notin> set seen"
      using Cons.prems by (simp add: other_end_def)
    ultimately have "((n, other_end e n), d) \<in> set (edges_from G (n # ns) seen)"
      by force
    moreover have "same_edge (n, other_end e n) e"
      using True by (cases e) (auto simp: other_end_def)
    ultimately show ?thesis by force
  next
    case False
    with Cons.prems have "fst e \<in> set ns" "snd e \<in> set ns"
      "fst e \<notin> set (n # seen)" "snd e \<notin> set (n # seen)" by auto
    from Cons.IH [OF Cons.prems(1) this] show ?thesis by auto
  qed
qed

lemma edges_has:
  assumes "e \<in> fst ` set (edge G)" "fst e \<in> set (nodes G)" "snd e \<in> set (nodes G)"
  shows "\<exists>e' \<in> set (edges G). same_edge e' e"
proof -
  from assms(1) obtain d where "(e, d) \<in> set (edge G)" by auto
  from edges_from_has [OF this assms(2,3), of "[]"] show ?thesis
    by (simp add: edges_def edges_iter_def)
qed

lemma same_edge_trans: "same_edge a b \<Longrightarrow> same_edge b c \<Longrightarrow> same_edge a c"
  by (cases a; cases b; cases c) auto

lemma map_of_notin: "k \<notin> fst ` set xs \<Longrightarrow> map_of xs k = None"
  by (simp add: map_of_eq_None_iff)

lemma add_edge_new_lookup:
  assumes "n \<notin> set (nodes G)" "n = u \<or> n = v"
  shows "map_of (node (add_edge u v a G)) n = Some Map.empty"
  using assms
  by (auto simp: node_add_edge Let_def nodes_def map_add_def map_of_notin split: option.splits)

lemma add_edge_new_untyped:
  assumes "n \<notin> set (nodes G)" "n = u \<or> n = v"
  shows "(n, Map.empty) \<in> set (node (add_edge u v a G))"
  using assms by (auto simp: node_add_edge Let_def nodes_def)

text \<open>
  Claim C9. \<open>set_edge\<close> on a graph that lacks one or both of the two endpoints does not
  raise (it is a total function of the store): both endpoints and the edge are in the graph
  afterwards, each endpoint that was missing has an empty attribute dictionary, hence no
  \<open>type\<close>, and \<open>get_vnodes\<close> and \<open>get_fnodes\<close> then raise \<open>KeyError\<close>.
\<close>

theorem set_edge_dangling_endpoint:
  assumes "\<not> has_node (graphs h self) s \<or> \<not> has_node (graphs h self) t"
  shows "has_node (graphs (set_edge self s t init h) self) s
     \<and> has_node (graphs (set_edge self s t init h) self) t
     \<and> (\<exists>e \<in> set (edges (graphs (set_edge self s t init h) self)). same_edge e (s, t))
     \<and> (\<forall>n \<in> {s, t}. \<not> has_node (graphs h self) n
           \<longrightarrow> map_of (node (graphs (set_edge self s t init h) self)) n = Some Map.empty)
     \<and> get_vnodes self (set_edge self s t init h) = Inl (KeyError (StrV ''type''))
     \<and> get_fnodes self (set_edge self s t init h) = Inl (KeyError (StrV ''type''))"
proof -
  let ?G = "graphs h self"
  let ?a = "[''object'' \<mapsto> EdgeV s t init]"
  let ?G' = "add_edge s t ?a ?G"
  have G': "graphs (set_edge self s t init h) self = ?G'"
    by (simp add: set_edge_def)
  from assms obtain n where n: "n = s \<or> n = t" "n \<notin> set (nodes ?G)"
    by (auto simp: has_node_def)
  then have mem: "(n, Map.empty) \<in> set (node ?G')"
    using add_edge_new_untyped by metis
  have hs: "has_node ?G' s" "has_node ?G' t"
    by (auto simp: has_node_def nodes_add_edge Let_def)
  have ed: "\<exists>e \<in> set (edges ?G'). same_edge e (s, t)"
  proof -
    have "\<exists>e' \<in> fst ` set (edge ?G'). same_edge e' (s, t)"
      unfolding edge_add_edge by (rule put_edge_has)
    then obtain e' where e': "e' \<in> fst ` set (edge ?G')" "same_edge e' (s, t)"
      by blast
    from e'(2) hs have "fst e' \<in> set (nodes ?G')" "snd e' \<in> set (nodes ?G')"
      by (cases e'; auto simp: has_node_def)+
    from edges_has [OF e'(1) this] e'(2) show ?thesis
      by (blast intro: same_edge_trans)
  qed
  have mo: "map_of (node ?G') m = Some Map.empty" if "m \<in> {s, t}" "\<not> has_node ?G m" for m
    using that by (intro add_edge_new_lookup) (auto simp: has_node_def)
  have v: "get_vnodes self (set_edge self s t init h) = Inl (KeyError (StrV ''type''))"
    unfolding get_vnodes_def G' by (rule select_nodes_fail [OF mem]) simp
  have f: "get_fnodes self (set_edge self s t init h) = Inl (KeyError (StrV ''type''))"
    unfolding get_fnodes_def G' by (rule select_nodes_fail [OF mem]) simp
  from mo have "\<forall>m \<in> {s, t}. \<not> has_node ?G m \<longrightarrow> map_of (node ?G') m = Some Map.empty"
    by blast
  with hs ed v f show ?thesis unfolding G' by blast
qed

theorem set_edge_dangling_endpoint_witness:
  "\<not> has_node (graphs (store_of small_fg) 0) (Inst 7 factor_node)
   \<and> map_of (node (graphs (set_edge 0 (Inst 0 variable_node) (Inst 7 factor_node) NoneV
         (store_of small_fg)) 0)) (Inst 7 factor_node) = Some Map.empty
   \<and> get_vnodes 0 (set_edge 0 (Inst 0 variable_node) (Inst 7 factor_node) NoneV (store_of small_fg))
       = Inl (KeyError (StrV ''type''))
   \<and> get_fnodes 0 (set_edge 0 (Inst 0 variable_node) (Inst 7 factor_node) NoneV (store_of small_fg))
       = Inl (KeyError (StrV ''type''))"
proof -
  have m: "\<not> has_node (graphs (store_of small_fg) 0) (Inst 7 factor_node)"
    by (simp add: has_node_def nodes_def store_of_def small_fg_def)
  then have "\<not> has_node (graphs (store_of small_fg) 0) (Inst 0 variable_node)
     \<or> \<not> has_node (graphs (store_of small_fg) 0) (Inst 7 factor_node)" by simp
  from set_edge_dangling_endpoint [OF this, of NoneV] m show ?thesis by blast
qed

section \<open>Conversion: a missing part label\<close>

text \<open>
  Claim C8. When some node of the input graph lacks the attribute \<open>bipartite\<close>, the
  conversion in bipartite mode raises (a \<open>KeyError\<close> for that attribute); no factor graph
  is returned.
\<close>

theorem convert_bipartite_missing_label:
  assumes "graph < next_ref h" and "(n, d) \<in> set (node (graphs h graph))"
    and "d ''bipartite'' = None"
  shows "convert_to_fg graph vnode fnode True h = Inl (KeyError (StrV ''bipartite''))"
proof -
  have "select_nodes ''bipartite'' (IntV 0) (node (graphs h graph)) = Inl (KeyError (StrV ''bipartite''))"
    by (rule select_nodes_fail [OF assms(2,3)])
  with assms(1) show ?thesis
    by (simp add: convert_to_fg_def FactorGraph_def new_graph_def convert_bipartite_def Let_def)
qed

theorem convert_bipartite_missing_label_witness:
  "0 < next_ref (store_of path_graph)
   \<and> (Plain 1, Map.empty) \<in> set (node (graphs (store_of path_graph) 0))
   \<and> (Map.empty :: nat attrs) ''bipartite'' = None
   \<and> convert_to_fg 0 ex_vnode ex_fnode True (store_of path_graph)
       = Inl (KeyError (StrV ''bipartite''))"
proof -
  have a: "0 < next_ref (store_of path_graph)"
    by (simp add: store_of_def)
  have b: "(Plain 1, Map.empty) \<in> set (node (graphs (store_of path_graph) 0))"
    by (simp add: store_of_def path_graph_def)
  have c: "(Map.empty :: nat attrs) ''bipartite'' = None"
    by simp
  from convert_bipartite_missing_label [OF a b c, of ex_vnode ex_fnode] a b c
  show ?thesis by blast
qed

section \<open>Conversion: the input graph is left alone\<close>

lemma set_node_frame:
  "set_node self n a h = Inr h' \<Longrightarrow>
     next_ref h' = next_ref h \<and> (\<forall>r. r \<noteq> self \<longrightarrow> graphs h' r = graphs h r)"
  by (auto simp: set_node_def split: Node.splits)

lemma set_nodes_frame:
  "set_nodes self ns h = Inr h' \<Longrightarrow>
     next_ref h' = next_ref h \<and> (\<forall>r. r \<noteq> self \<longrightarrow> graphs h' r = graphs h r)"
proof (induction ns arbitrary: h)
  case Nil then show ?case by simp
next
  case (Cons n ns)
  then obtain h1 where 1: "set_node self n Map.empty h = Inr h1" and 2: "set_nodes self ns h1 = Inr h'"
    by (auto split: sum.splits)
  from set_node_frame [OF 1] Cons.IH [OF 2] show ?case by simp
qed

lemma set_edge_frame:
  "next_ref (set_edge self s t i h) = next_ref h \<and> (\<forall>r. r \<noteq> self \<longrightarrow> graphs (set_edge self s t i h) r = graphs h r)"
  by (simp add: set_edge_def)

lemma set_edges_frame:
  "next_ref (set_edges self es h) = next_ref h \<and> (\<forall>r. r \<noteq> self \<longrightarrow> graphs (set_edges self es h) r = graphs h r)"
proof (induction es arbitrary: h)
  case Nil then show ?case by simp
next
  case (Cons e es)
  obtain s t where e: "e = (s, t)" by (cases e)
  from Cons [of "set_edge self s t NoneV h"] set_edge_frame [of self s t NoneV h]
  show ?case by (simp add: e)
qed

lemma add_factors_frame:
  "add_factors self fnode es i h = Inr h' \<Longrightarrow>
     next_ref h' = next_ref h \<and> (\<forall>r. r \<noteq> self \<longrightarrow> graphs h' r = graphs h r)"
proof (induction es arbitrary: i h)
  case Nil then show ?case by simp
next
  case (Cons e es)
  show ?case
  proof (cases "pop i :: 'a error + nat \<times> nat list")
    case (Inl err)
    with Cons.prems show ?thesis by simp
  next
    case (Inr p)
    obtain k i' where p: "p = (k, i')" by (cases p)
    show ?thesis
    proof (cases "set_node self (fnode k NoneV) Map.empty h")
      case (Inl err)
      with Cons.prems Inr p show ?thesis by (simp add: Let_def)
    next
      case h1: (Inr h1)
      with Cons.prems Inr p have 2: "add_factors self fnode es i'
              (set_edge self (fnode k NoneV) (snd e) NoneV
                (set_edge self (fst e) (fnode k NoneV) NoneV h1)) = Inr h'"
        by (simp add: Let_def)
      from set_node_frame [OF h1] Cons.IH [OF 2] show ?thesis
        by (simp add: set_edge_frame)
    qed
  qed
qed

lemma set_node_attributes_frame:
  "set_node_attributes self name vs h = Inr h' \<Longrightarrow>
     next_ref h' = next_ref h \<and> (\<forall>r. r \<noteq> self \<longrightarrow> graphs h' r = graphs h r)"
proof (induction vs arbitrary: h)
  case Nil then show ?case by simp
next
  case (Cons p vs)
  obtain n v where p: "p = (n, v)" by (cases p)
  from Cons.prems obtain d where d: "map_of (node (graphs h self)) n = Some d"
    and 2: "set_node_attributes self name vs
              (h\<lparr>graphs := (graphs h)(self := (graphs h self)\<lparr>node := AList.update n (d(name \<mapsto> v)) (node (graphs h self))\<rparr>)\<rparr>) = Inr h'"
    by (auto simp: p split: option.splits)
  from Cons.IH [OF 2] show ?case by simp
qed

lemma convert_bipartite_frame:
  assumes "convert_bipartite graph fgraph vnode fnode m h = Inr (m', h')"
  shows "\<forall>r. r \<noteq> fgraph \<and> r < next_ref h \<longrightarrow> graphs h' r = graphs h r"
proof -
  from assms obtain h2 where
    1: "set_nodes fgraph (nodes (graphs (snd (relabel_nodes graph m' h)) (next_ref h))) (snd (relabel_nodes graph m' h)) = Inr h2"
    and 2: "h' = set_edges fgraph (edges (graphs h2 (next_ref h))) h2"
    by (auto simp: convert_bipartite_def relabel_nodes_def new_graph_def split: sum.splits prod.splits)
  from set_nodes_frame [OF 1] set_edges_frame [of fgraph "edges (graphs h2 (next_ref h))" h2] 2
  show ?thesis by (auto simp: relabel_nodes_def new_graph_def)
qed

lemma convert_plain_frame:
  assumes "convert_plain graph fgraph vnode fnode m h = Inr (m', h')"
  shows "\<forall>r. r \<noteq> fgraph \<and> r < next_ref h \<longrightarrow> graphs h' r = graphs h r"
proof -
  from assms obtain h2 where
    1: "set_nodes fgraph (nodes (graphs (snd (relabel_nodes graph m' h)) (next_ref h))) (snd (relabel_nodes graph m' h)) = Inr h2"
    and 2: "add_factors fgraph fnode (edges (graphs h2 (next_ref h))) [0..<number_of_edges (graphs h2 (next_ref h))] h2 = Inr h'"
    by (auto simp: convert_plain_def relabel_nodes_def new_graph_def split: sum.splits prod.splits)
  from set_nodes_frame [OF 1] add_factors_frame [OF 2]
  show ?thesis by (auto simp: relabel_nodes_def new_graph_def)
qed

lemma convert_to_fg_unfold:
  "convert_to_fg graph vnode fnode bipartite h =
     (case (if bipartite
            then convert_bipartite graph (next_ref h) vnode fnode
                   (zip (nodes (graphs h graph)) (nodes (graphs h graph)))
                   (h\<lparr>graphs := (graphs h)(next_ref h := empty_graph), next_ref := Suc (next_ref h)\<rparr>)
            else convert_plain graph (next_ref h) vnode fnode
                   (zip (nodes (graphs h graph)) (nodes (graphs h graph)))
                   (h\<lparr>graphs := (graphs h)(next_ref h := empty_graph), next_ref := Suc (next_ref h)\<rparr>)) of
        Inl e \<Rightarrow> Inl e
      | Inr (mapping', h1) \<Rightarrow>
          (case set_node_attributes (next_ref h) ''origin'' (invert mapping') h1 of
             Inl e \<Rightarrow> Inl e
           | Inr h2 \<Rightarrow> Inr (next_ref h, h2)))"
  by (simp add: convert_to_fg_def FactorGraph_def new_graph_def Let_def)

lemma convert_to_fg_InrD:
  assumes "convert_to_fg graph vnode fnode bipartite h = Inr (fgraph, h')"
  shows "fgraph = next_ref h \<and> (\<exists>m' h1.
     (if bipartite
      then convert_bipartite graph (next_ref h) vnode fnode
             (zip (nodes (graphs h graph)) (nodes (graphs h graph)))
             (h\<lparr>graphs := (graphs h)(next_ref h := empty_graph), next_ref := Suc (next_ref h)\<rparr>)
      else convert_plain graph (next_ref h) vnode fnode
             (zip (nodes (graphs h graph)) (nodes (graphs h graph)))
             (h\<lparr>graphs := (graphs h)(next_ref h := empty_graph), next_ref := Suc (next_ref h)\<rparr>))
       = Inr (m', h1)
     \<and> set_node_attributes (next_ref h) ''origin'' (invert m') h1 = Inr h')"
  using assms unfolding convert_to_fg_unfold
  by (cases bipartite) (auto split: sum.splits prod.splits)

text \<open>
  Claim C4. When \<open>convert_to_fg\<close> returns, in either mode, the input graph object holds
  the same nodes, edges and attributes as before the call, and so does every other graph
  object that existed before; the returned factor graph is a new object, at a reference
  that was not allocated before the call.
\<close>

theorem convert_to_fg_input_unchanged:
  assumes alloc: "graph < next_ref h"
    and conv: "convert_to_fg graph vnode fnode bipartite h = Inr (fgraph, h')"
  shows "graphs h' graph = graphs h graph
     \<and> \<not> fgraph < next_ref h \<and> fgraph \<noteq> graph
     \<and> (\<forall>r. r < next_ref h \<longrightarrow> graphs h' r = graphs h r)"
proof -
  let ?h0 = "h\<lparr>graphs := (graphs h)(next_ref h := empty_graph), next_ref := Suc (next_ref h)\<rparr>"
  let ?m = "zip (nodes (graphs h graph)) (nodes (graphs h graph))"
  from convert_to_fg_InrD [OF conv] obtain m' h1 where
    br: "(if bipartite then convert_bipartite graph (next_ref h) vnode fnode ?m ?h0
          else convert_plain graph (next_ref h) vnode fnode ?m ?h0) = Inr (m', h1)"
    and at: "set_node_attributes (next_ref h) ''origin'' (invert m') h1 = Inr h'"
    and fg: "fgraph = next_ref h"
    by blast
  have 1: "\<forall>r. r \<noteq> next_ref h \<and> r < next_ref ?h0 \<longrightarrow> graphs h1 r = graphs ?h0 r"
  proof (cases bipartite)
    case True
    with br have "convert_bipartite graph (next_ref h) vnode fnode ?m ?h0 = Inr (m', h1)" by simp
    from convert_bipartite_frame [OF this] show ?thesis by simp
  next
    case False
    with br have "convert_plain graph (next_ref h) vnode fnode ?m ?h0 = Inr (m', h1)" by simp
    from convert_plain_frame [OF this] show ?thesis by simp
  qed
  have 2: "\<forall>r. r \<noteq> next_ref h \<longrightarrow> graphs h' r = graphs h1 r"
    using set_node_attributes_frame [OF at] by simp
  have all: "\<forall>r. r < next_ref h \<longrightarrow> graphs h' r = graphs h r"
    using 1 2 by auto
  with alloc fg show ?thesis by auto
qed

lemma path_graph_converts:
  "\<not> isl (convert_to_fg 0 ex_vnode ex_fnode False (store_of path_graph))"
  by code_simp

lemma bip_graph_converts:
  "\<not> isl (convert_to_fg 0 ex_vnode ex_fnode True (store_of bip_graph))"
  by code_simp

theorem convert_to_fg_input_unchanged_witness:
  "0 < next_ref (store_of bip_graph)
   \<and> (\<exists>fgraph h'. convert_to_fg 0 ex_vnode ex_fnode True (store_of bip_graph) = Inr (fgraph, h')
        \<and> graphs h' 0 = bip_graph \<and> fgraph \<noteq> 0)"
proof -
  have a: "0 < next_ref (store_of bip_graph)"
    by (simp add: store_of_def)
  from bip_graph_converts obtain fgraph h' where
    c: "convert_to_fg 0 ex_vnode ex_fnode True (store_of bip_graph) = Inr (fgraph, h')"
    by (cases "convert_to_fg 0 ex_vnode ex_fnode True (store_of bip_graph)") auto
  from convert_to_fg_input_unchanged [OF a c]
  have "graphs h' 0 = graphs (store_of bip_graph) 0" "fgraph \<noteq> 0" by simp_all
  with a c show ?thesis by (simp add: store_of_def)
qed

section \<open>Graphs: edges, relabelling and the mapping\<close>

subsection \<open>Edges without duplicates\<close>

lemma same_edge_sym: "same_edge e e' = same_edge e' e"
  by (cases e; cases e') auto

lemma no_dup_edges_conv: "no_dup_edges es = sorted_wrt (\<lambda>a b. \<not> same_edge a b) es"
  by (induction es) (auto simp: same_edge_sym)

lemma no_dup_edges_append:
  "no_dup_edges (xs @ ys) =
     (no_dup_edges xs \<and> no_dup_edges ys \<and> (\<forall>x \<in> set xs. \<forall>y \<in> set ys. \<not> same_edge x y))"
  by (simp add: no_dup_edges_conv sorted_wrt_append)

lemma no_dup_edges_map:
  assumes "inj_on g S" "no_dup_edges es" "\<forall>e \<in> set es. fst e \<in> S \<and> snd e \<in> S"
  shows "no_dup_edges (map (relabel_edge g) es)"
  using assms(2,3)
proof (induction es)
  case Nil then show ?case by simp
next
  case (Cons e es)
  have "\<not> same_edge (relabel_edge g e') (relabel_edge g e)" if "e' \<in> set es" for e'
  proof -
    from Cons.prems that have ns: "\<not> same_edge e' e" by simp
    from Cons.prems that have mem: "fst e \<in> S" "snd e \<in> S" "fst e' \<in> S" "snd e' \<in> S" by auto
    show ?thesis
      using ns mem inj_onD [OF assms(1)]
      by (cases e; cases e') (auto simp: relabel_edge_def)
  qed
  with Cons show ?case by simp
qed

subsection \<open>add_edge and add_node\<close>

lemma put_edge_new:
  "\<forall>e' \<in> fst ` set es. \<not> same_edge e' e \<Longrightarrow> put_edge e a es = es @ [(e, a)]"
  by (induction es) auto

lemma put_edge_keys: "fst ` set (put_edge e a es) \<subseteq> insert e (fst ` set es)"
proof (induction es)
  case Nil then show ?case by simp
next
  case (Cons p es)
  obtain e' d where p: "p = (e', d)" by (cases p)
  show ?case
  proof (cases "same_edge e' e")
    case True then show ?thesis by (auto simp: p)
  next
    case False
    with Cons show ?thesis by (auto simp: p)
  qed
qed

lemma map_fst_put_edge:
  "map fst (put_edge e a es) =
     (if \<exists>e' \<in> fst ` set es. same_edge e' e then map fst es else map fst es @ [e])"
proof (induction es)
  case Nil then show ?case by simp
next
  case (Cons p es)
  obtain e' d where p: "p = (e', d)" by (cases p)
  show ?case using Cons by (auto simp: p)
qed

lemma set_nodes_add_edge: "set (nodes (add_edge u v a G)) = insert u (insert v (set (nodes G)))"
  by (auto simp: nodes_add_edge Let_def)

lemma distinct_nodes_add_edge: "distinct (nodes G) \<Longrightarrow> distinct (nodes (add_edge u v a G))"
  by (auto simp: nodes_add_edge Let_def)

lemma node_add_edge_present:
  "u \<in> set (nodes G) \<Longrightarrow> v \<in> set (nodes G) \<Longrightarrow> node (add_edge u v a G) = node G"
  by (simp add: node_add_edge Let_def nodes_def)

lemma edge_keys_add_edge:
  "edge_keys (add_edge u v a G) =
     (if \<exists>e' \<in> set (edge_keys G). same_edge e' (u, v) then edge_keys G else edge_keys G @ [(u, v)])"
  by (simp add: edge_add_edge map_fst_put_edge)

lemma edge_keys_add_edge_subset:
  "set (edge_keys (add_edge u v a G)) \<subseteq> insert (u, v) (set (edge_keys G))"
  by (auto simp: edge_keys_add_edge)

lemma set_nodes_add_node: "set (nodes (add_node n a G)) = insert n (set (nodes G))"
  by (auto simp: nodes_add_node)

lemma distinct_nodes_add_node: "distinct (nodes G) \<Longrightarrow> distinct (nodes (add_node n a G))"
  by (auto simp: nodes_add_node)

lemma node_attr_add_node:
  "node_attr (add_node n a G) x key =
     (if x = n then (case map_of (node G) n of None \<Rightarrow> a key | Some d \<Rightarrow> (d ++ a) key)
      else node_attr G x key)"
  by (simp add: node_attr_def map_of_add_node split: option.splits)

subsection \<open>Folds of add_edge, add_node and update\<close>

lemma fold_add_edge_nodes:
  "set (nodes (fold (\<lambda>((n1, n2), d). add_edge (g n1) (g n2) d) es G0)) =
     set (nodes G0) \<union> g ` (fst ` fst ` set es \<union> snd ` fst ` set es)"
proof (induction es arbitrary: G0)
  case Nil then show ?case by simp
next
  case (Cons e es)
  obtain u v d where e: "e = ((u, v), d)" by (cases e) auto
  show ?case by (simp add: e Cons set_nodes_add_edge) blast
qed

lemma fold_add_edge_distinct:
  "distinct (nodes G0) \<Longrightarrow> distinct (nodes (fold (\<lambda>((n1, n2), d). add_edge (g n1) (g n2) d) es G0))"
proof (induction es arbitrary: G0)
  case Nil then show ?case by simp
next
  case (Cons e es)
  obtain u v d where e: "e = ((u, v), d)" by (cases e) auto
  show ?case using Cons by (simp add: e distinct_nodes_add_edge)
qed

lemma fold_add_edge_keys_subset:
  "set (edge_keys (fold (\<lambda>((n1, n2), d). add_edge (g n1) (g n2) d) es G0)) \<subseteq>
     set (edge_keys G0) \<union> relabel_edge g ` fst ` set es"
proof (induction es arbitrary: G0)
  case Nil then show ?case by simp
next
  case (Cons e es)
  obtain u v d where e: "e = ((u, v), d)" by (cases e) auto
  have "set (edge_keys (fold (\<lambda>((n1, n2), d). add_edge (g n1) (g n2) d) es (add_edge (g u) (g v) d G0)))
     \<subseteq> set (edge_keys (add_edge (g u) (g v) d G0)) \<union> relabel_edge g ` fst ` set es"
    by (rule Cons.IH)
  also have "\<dots> \<subseteq> insert (g u, g v) (set (edge_keys G0)) \<union> relabel_edge g ` fst ` set es"
    using edge_keys_add_edge_subset [of "g u" "g v" d G0] by blast
  finally show ?case by (auto simp: e relabel_edge_def)
qed

lemma fold_add_edge_keys_exact:
  assumes "no_dup_edges (map (relabel_edge g) (map fst es))"
    and "\<forall>e \<in> set es. \<forall>e' \<in> set (edge_keys G0). \<not> same_edge e' (relabel_edge g (fst e))"
  shows "edge_keys (fold (\<lambda>((n1, n2), d). add_edge (g n1) (g n2) d) es G0) =
     edge_keys G0 @ map (relabel_edge g) (map fst es)"
  using assms
proof (induction es arbitrary: G0)
  case Nil then show ?case by simp
next
  case (Cons e es)
  obtain u v d where e: "e = ((u, v), d)" by (cases e) auto
  let ?G1 = "add_edge (g u) (g v) d G0"
  have new: "\<not> (\<exists>e' \<in> set (edge_keys G0). same_edge e' (g u, g v))"
    using Cons.prems(2) by (simp add: e relabel_edge_def)
  have G1: "edge_keys ?G1 = edge_keys G0 @ [(g u, g v)]"
    unfolding edge_keys_add_edge using new by simp
  have nd: "no_dup_edges (map (relabel_edge g) (map fst es))"
    using Cons.prems(1) by simp
  have fresh: "\<forall>x \<in> set es. \<forall>e' \<in> set (edge_keys ?G1). \<not> same_edge e' (relabel_edge g (fst x))"
  proof (intro ballI)
    fix x e' assume x: "x \<in> set es" and e': "e' \<in> set (edge_keys ?G1)"
    from e' G1 have "e' \<in> set (edge_keys G0) \<or> e' = (g u, g v)" by auto
    then show "\<not> same_edge e' (relabel_edge g (fst x))"
    proof
      assume "e' \<in> set (edge_keys G0)"
      with Cons.prems(2) x show ?thesis by auto
    next
      assume eq: "e' = (g u, g v)"
      from Cons.prems(1) x have "\<not> same_edge (relabel_edge g (fst x)) (relabel_edge g (fst e))"
        by auto
      then show ?thesis by (simp add: eq e relabel_edge_def same_edge_sym)
    qed
  qed
  from Cons.IH [OF nd fresh] G1 show ?case by (simp add: e relabel_edge_def)
qed

lemma fold_add_node_nodes:
  "set (nodes (fold (\<lambda>n. add_node (g n) a) ns G0)) = set (nodes G0) \<union> g ` set ns"
  by (induction ns arbitrary: G0) (auto simp: set_nodes_add_node)

lemma fold_add_node_distinct:
  "distinct (nodes G0) \<Longrightarrow> distinct (nodes (fold (\<lambda>n. add_node (g n) a) ns G0))"
  by (induction ns arbitrary: G0) (auto simp: distinct_nodes_add_node)

lemma fold_add_node_edge [simp]:
  "edge (fold (\<lambda>n. add_node (g n) a) ns G0) = edge G0"
  by (induction ns arbitrary: G0) auto

lemma fold_update_keys:
  "fst ` set (fold (\<lambda>(n, d). AList.update (g n) d) nd xs) = fst ` set xs \<union> g ` fst ` set nd"
proof (induction nd arbitrary: xs)
  case Nil then show ?case by simp
next
  case (Cons p nd)
  obtain n d where p: "p = (n, d)" by (cases p)
  show ?case by (auto simp: p Cons AList.dom_update)
qed

lemma fold_update_distinct:
  "distinct (map fst xs) \<Longrightarrow> distinct (map fst (fold (\<lambda>(n, d). AList.update (g n) d) nd xs))"
proof (induction nd arbitrary: xs)
  case Nil then show ?case by simp
next
  case (Cons p nd)
  obtain n d where p: "p = (n, d)" by (cases p)
  show ?case using Cons by (simp add: p AList.distinct_update)
qed

subsection \<open>The edges in adjacency order\<close>

lemma adj_mem:
  "(nbr, d) \<in> set (adj G n) \<longleftrightarrow>
     (\<exists>e. (e, d) \<in> set (edge G) \<and> (fst e = n \<or> snd e = n) \<and> nbr = other_end e n)"
  by (force simp: adj_def)

lemma same_edge_other_end: "fst e = n \<or> snd e = n \<Longrightarrow> same_edge (n, other_end e n) e"
  by (cases e) (auto simp: other_end_def)

lemma edges_from_mem:
  assumes "(e', d) \<in> set (edges_from G ns seen)"
  shows "fst e' \<in> set ns \<and> snd e' \<notin> set seen \<and> (\<exists>e. (e, d) \<in> set (edge G) \<and> same_edge e' e)"
  using assms
proof (induction ns arbitrary: seen)
  case Nil then show ?case by simp
next
  case (Cons n ns)
  from Cons.prems consider
    (a) nbr where "e' = (n, nbr)" "(nbr, d) \<in> set (adj G n)" "nbr \<notin> set seen"
    | (b) "(e', d) \<in> set (edges_from G ns (n # seen))"
    by auto
  then show ?case
  proof cases
    case a
    from a(2) obtain e where e: "(e, d) \<in> set (edge G)" "fst e = n \<or> snd e = n"
      "nbr = other_end e n" unfolding adj_mem by blast
    have "same_edge e' e" using same_edge_other_end [OF e(2)] a(1) e(3) by simp
    with e(1) have "\<exists>e. (e, d) \<in> set (edge G) \<and> same_edge e' e" by blast
    then show ?thesis using a by simp
  next
    case b
    from Cons.IH [OF b] show ?thesis by auto
  qed
qed

lemma length_filter_split:
  "length (filter P xs) =
     length (filter (\<lambda>x. Q x \<and> P x) xs) + length (filter (\<lambda>x. P x \<and> \<not> Q x) xs)"
  by (induction xs) auto

lemma edges_from_length:
  assumes "distinct ns" "set ns \<inter> set seen = {}"
    and "\<forall>e \<in> set (edge_keys G). fst e \<in> set ns \<union> set seen \<and> snd e \<in> set ns \<union> set seen"
  shows "length (edges_from G ns seen) =
     length (filter (\<lambda>(e, d). fst e \<notin> set seen \<and> snd e \<notin> set seen) (edge G))"
  using assms
proof (induction ns arbitrary: seen)
  case Nil
  then have "filter (\<lambda>(e, d). fst e \<notin> set seen \<and> snd e \<notin> set seen) (edge G) = []"
    by (auto simp: filter_empty_conv)
  then show ?case by simp
next
  case (Cons n ns)
  from Cons.prems have n: "n \<notin> set seen" "n \<notin> set ns" by auto
  have 1: "length (filter (\<lambda>(nbr, d). nbr \<notin> set seen) (adj G n)) =
      length (filter (\<lambda>x. (fst (fst x) = n \<or> snd (fst x) = n)
                \<and> (fst (fst x) \<notin> set seen \<and> snd (fst x) \<notin> set seen)) (edge G))"
    unfolding adj_def filter_map length_map filter_filter
    by (rule arg_cong [where f = length], rule filter_cong)
       (use n in \<open>auto simp: other_end_def split: if_splits\<close>)
  have p: "distinct ns" "set ns \<inter> set (n # seen) = {}"
    "\<forall>e \<in> set (edge_keys G). fst e \<in> set ns \<union> set (n # seen) \<and> snd e \<in> set ns \<union> set (n # seen)"
    using Cons.prems by auto
  have 2: "length (edges_from G ns (n # seen)) =
      length (filter (\<lambda>x. (fst (fst x) \<notin> set seen \<and> snd (fst x) \<notin> set seen)
                \<and> \<not> (fst (fst x) = n \<or> snd (fst x) = n)) (edge G))"
    unfolding Cons.IH [OF p]
    by (rule arg_cong [where f = length], rule filter_cong) auto
  have 3: "length (filter (\<lambda>(e, d). fst e \<notin> set seen \<and> snd e \<notin> set seen) (edge G)) =
      length (filter (\<lambda>x. fst (fst x) \<notin> set seen \<and> snd (fst x) \<notin> set seen) (edge G))"
    by (rule arg_cong [where f = length], rule filter_cong) auto
  show ?case
    unfolding 3
    by (subst length_filter_split [where Q = "\<lambda>x. fst (fst x) = n \<or> snd (fst x) = n"])
       (simp add: 1 2)
qed

lemma edges_from_no_dup:
  assumes "distinct ns" "no_dup_edges (edge_keys G)"
  shows "no_dup_edges (map fst (edges_from G ns seen))"
  using assms(1)
proof (induction ns arbitrary: seen)
  case Nil then show ?case by simp
next
  case (Cons n ns)
  let ?A = "map (\<lambda>(nbr, d). ((n, nbr), d)) (filter (\<lambda>(nbr, d). nbr \<notin> set seen) (adj G n))"
  let ?Q = "\<lambda>x. (fst (fst x) = n \<or> snd (fst x) = n) \<and> other_end (fst x) n \<notin> set seen"
  have A: "map fst ?A = map (\<lambda>x. (n, other_end (fst x) n)) (filter ?Q (edge G))"
    unfolding adj_def filter_map filter_filter map_map
    by (rule arg_cong2 [where f = map]) (auto intro!: filter_cong)
  have s0: "sorted_wrt (\<lambda>x y. \<not> same_edge (fst x) (fst y)) (edge G)"
    using assms(2) by (simp add: no_dup_edges_conv sorted_wrt_map)
  have s1: "sorted_wrt (\<lambda>x y. \<not> same_edge (fst x) (fst y)) (filter ?Q (edge G))"
    by (rule sorted_wrt_filter [OF s0])
  have s2: "sorted_wrt (\<lambda>x y. \<not> same_edge (n, other_end (fst x) n) (n, other_end (fst y) n))
              (filter ?Q (edge G))"
  proof (rule sorted_wrt_mono_rel [OF _ s1])
    fix x y
    assume x: "x \<in> set (filter ?Q (edge G))" and y: "y \<in> set (filter ?Q (edge G))"
      and ns: "\<not> same_edge (fst x) (fst y)"
    from x y ns show "\<not> same_edge (n, other_end (fst x) n) (n, other_end (fst y) n)"
      by (cases "fst x"; cases "fst y") (auto simp: other_end_def split: if_splits)
  qed
  have ndA: "no_dup_edges (map fst ?A)"
    unfolding A no_dup_edges_conv sorted_wrt_map using s2 by simp
  from Cons.prems have d: "distinct ns" and nn: "n \<notin> set ns" by auto
  have ndR: "no_dup_edges (map fst (edges_from G ns (n # seen)))"
    by (rule Cons.IH [OF d])
  have cross: "\<not> same_edge x y"
    if "x \<in> set (map fst ?A)" "y \<in> set (map fst (edges_from G ns (n # seen)))" for x y
  proof -
    from that(1) obtain nbr where x: "x = (n, nbr)" by auto
    from that(2) obtain dd where "(y, dd) \<in> set (edges_from G ns (n # seen))" by auto
    from edges_from_mem [OF this] have "fst y \<in> set ns" "snd y \<noteq> n" by auto
    with nn show ?thesis by (cases y) (auto simp: x)
  qed
  show ?case
    using ndA ndR cross by (simp add: no_dup_edges_append del: map_map)
qed

lemma edges_mem:
  assumes "e' \<in> set (edges G)"
  shows "fst e' \<in> set (nodes G) \<and> (\<exists>e \<in> set (edge_keys G). same_edge e' e)"
proof -
  from assms obtain d where "(e', d) \<in> set (edges_from G (nodes G) [])"
    by (auto simp: edges_def edges_iter_def)
  from edges_from_mem [OF this] show ?thesis by force
qed

lemma edges_endpoints:
  assumes "is_graph G" "e \<in> set (edges G)"
  shows "fst e \<in> set (nodes G) \<and> snd e \<in> set (nodes G)"
proof -
  from edges_mem [OF assms(2)] obtain e0 where
    e0: "e0 \<in> set (edge_keys G)" "same_edge e e0" and f: "fst e \<in> set (nodes G)" by blast
  from assms(1) e0(1) have "fst e0 \<in> set (nodes G)" "snd e0 \<in> set (nodes G)"
    by (auto simp: is_graph_def)
  with e0(2) f show ?thesis by (cases e; cases e0) auto
qed

lemma edges_length: "is_graph G \<Longrightarrow> length (edges G) = number_of_edges G"
  using edges_from_length [of "nodes G" "[]" G]
  by (simp add: is_graph_def edges_def edges_iter_def number_of_edges_def)

lemma edges_no_dup: "is_graph G \<Longrightarrow> no_dup_edges (edges G)"
  using edges_from_no_dup [of "nodes G" G "[]"]
  by (simp add: is_graph_def edges_def edges_iter_def)

lemma edges_loop_free:
  assumes "loop_free G" "e \<in> set (edges G)"
  shows "fst e \<noteq> snd e"
proof -
  from edges_mem [OF assms(2)] obtain e0 where
    e0: "e0 \<in> set (edge_keys G)" "same_edge e e0" by blast
  from assms(1) e0(1) have "fst e0 \<noteq> snd e0" by (auto simp: loop_free_def)
  with e0(2) show ?thesis by (cases e; cases e0) auto
qed

subsection \<open>relabel_copy\<close>

lemma same_edge_relabel: "same_edge a b \<Longrightarrow> same_edge (relabel_edge g a) (relabel_edge g b)"
  by (cases a; cases b) (auto simp: relabel_edge_def)

lemma relabel_copy_edge:
  "edge (relabel_copy G m) =
     edge (fold (\<lambda>((n1, n2), d). add_edge (get_default m n1) (get_default m n2) d)
             (edges_iter G) empty_graph)"
  by (simp add: relabel_copy_def Let_def)

lemma relabel_copy_nodes_set:
  "set (nodes (relabel_copy G m)) =
     get_default m ` (set (nodes G) \<union> fst ` set (edges G) \<union> snd ` set (edges G))"
proof -
  have "set (nodes (relabel_copy G m)) =
     fst ` set (fold (\<lambda>(n, d). AList.update (get_default m n) d) (node G)
        (node (fold (\<lambda>n. add_node (get_default m n) Map.empty) (nodes G)
           (fold (\<lambda>((n1, n2), d). add_edge (get_default m n1) (get_default m n2) d)
              (edges_iter G) empty_graph))))"
    by (simp add: relabel_copy_def Let_def nodes_def)
  also have "\<dots> = get_default m ` (set (nodes G) \<union> fst ` set (edges G) \<union> snd ` set (edges G))"
    using fold_add_node_nodes [of "get_default m" Map.empty "nodes G"]
          fold_add_edge_nodes [of "get_default m" "edges_iter G" empty_graph]
    by (simp add: fold_update_keys nodes_def edges_def empty_graph_def image_Un image_image) blast
  finally show ?thesis .
qed

lemma relabel_copy_nodes_distinct: "distinct (nodes (relabel_copy G m))"
proof -
  have "distinct (nodes (empty_graph :: 'a Graph))" by (simp add: nodes_def empty_graph_def)
  then have "distinct (nodes (fold (\<lambda>n. add_node (get_default m n) Map.empty) (nodes G)
           (fold (\<lambda>((n1, n2), d). add_edge (get_default m n1) (get_default m n2) d)
              (edges_iter G) empty_graph)))"
    by (intro fold_add_node_distinct fold_add_edge_distinct)
  then show ?thesis
    by (simp add: relabel_copy_def Let_def nodes_def fold_update_distinct)
qed

lemma relabel_copy_keys_subset:
  "set (edge_keys (relabel_copy G m)) \<subseteq> relabel_edge (get_default m) ` set (edges G)"
  using fold_add_edge_keys_subset [of "get_default m" "edges_iter G" empty_graph]
  by (simp add: relabel_copy_edge edges_def empty_graph_def)

lemma relabel_copy_nodes:
  assumes "is_graph G"
  shows "set (nodes (relabel_copy G m)) = get_default m ` set (nodes G)"
  using edges_endpoints [OF assms] by (auto simp: relabel_copy_nodes_set)

lemma relabel_copy_keys:
  assumes "is_graph G" "inj_on (get_default m) (set (nodes G))"
  shows "edge_keys (relabel_copy G m) = map (relabel_edge (get_default m)) (edges G)"
proof -
  have ep: "\<forall>e \<in> set (edges G). fst e \<in> set (nodes G) \<and> snd e \<in> set (nodes G)"
    using edges_endpoints [OF assms(1)] by blast
  have nd: "no_dup_edges (map (relabel_edge (get_default m)) (map fst (edges_iter G)))"
    using no_dup_edges_map [OF assms(2) edges_no_dup [OF assms(1)] ep] by (simp add: edges_def)
  have "edge_keys (fold (\<lambda>((n1, n2), d). add_edge (get_default m n1) (get_default m n2) d)
            (edges_iter G) empty_graph)
      = edge_keys empty_graph @ map (relabel_edge (get_default m)) (map fst (edges_iter G))"
    by (rule fold_add_edge_keys_exact [OF nd]) (simp add: empty_graph_def)
  then show ?thesis
    by (simp add: relabel_copy_edge edges_def empty_graph_def)
qed

lemma relabel_copy_is_graph:
  assumes "is_graph G" "inj_on (get_default m) (set (nodes G))"
  shows "is_graph (relabel_copy G m)"
proof -
  have ep: "\<forall>e \<in> set (edges G). fst e \<in> set (nodes G) \<and> snd e \<in> set (nodes G)"
    using edges_endpoints [OF assms(1)] by blast
  have "no_dup_edges (map (relabel_edge (get_default m)) (edges G))"
    by (rule no_dup_edges_map [OF assms(2) edges_no_dup [OF assms(1)] ep])
  moreover have "\<forall>e \<in> set (map (relabel_edge (get_default m)) (edges G)).
      fst e \<in> get_default m ` set (nodes G) \<and> snd e \<in> get_default m ` set (nodes G)"
    using ep by (auto simp: relabel_edge_def)
  ultimately show ?thesis
    unfolding is_graph_def relabel_copy_keys [OF assms] relabel_copy_nodes [OF assms(1)]
    using relabel_copy_nodes_distinct by blast
qed

lemma relabel_copy_length_nodes:
  assumes "is_graph G" "inj_on (get_default m) (set (nodes G))"
  shows "length (nodes (relabel_copy G m)) = length (nodes G)"
proof -
  have "length (nodes (relabel_copy G m)) = card (set (nodes (relabel_copy G m)))"
    by (simp add: distinct_card relabel_copy_nodes_distinct)
  also have "\<dots> = card (set (nodes G))"
    by (simp add: relabel_copy_nodes [OF assms(1)] card_image [OF assms(2)])
  also have "\<dots> = length (nodes G)"
    using assms(1) by (simp add: distinct_card is_graph_def)
  finally show ?thesis .
qed

lemma relabel_copy_number_of_edges:
  assumes "is_graph G" "inj_on (get_default m) (set (nodes G))"
  shows "number_of_edges (relabel_copy G m) = number_of_edges G"
proof -
  have "length (edge_keys (relabel_copy G m)) = length (edges G)"
    by (simp add: relabel_copy_keys [OF assms])
  then show ?thesis by (simp add: number_of_edges_def edges_length [OF assms(1)])
qed

lemma relabel_copy_edges_mem:
  assumes "e \<in> set (edges (relabel_copy G m))"
  shows "\<exists>e0 \<in> set (edge_keys G). same_edge e (relabel_edge (get_default m) e0)"
proof -
  from edges_mem [OF assms] obtain e1 where
    e1: "e1 \<in> set (edge_keys (relabel_copy G m))" "same_edge e e1" by blast
  from e1(1) relabel_copy_keys_subset obtain e2 where
    e2: "e2 \<in> set (edges G)" "e1 = relabel_edge (get_default m) e2" by blast
  from edges_mem [OF e2(1)] obtain e0 where
    e0: "e0 \<in> set (edge_keys G)" "same_edge e2 e0" by blast
  from same_edge_relabel [OF e0(2)] e1(2) e2(2)
  have "same_edge e (relabel_edge (get_default m) e0)" by (blast intro: same_edge_trans)
  with e0(1) show ?thesis by blast
qed

subsection \<open>pop and the mapping\<close>

lemma pop_nonempty: "xs \<noteq> [] \<Longrightarrow> pop xs = Inr (last xs, butlast xs)"
  by (simp add: pop_def)

lemma update_pop_spec:
  assumes "length box = length ns" "distinct ns"
  shows "\<exists>m'. (update_pop m ns box :: 'e error + ('k \<times> 'k) list) = Inr m'
     \<and> (\<forall>i < length ns. map_of m' (ns ! i) = Some (box ! (length ns - 1 - i)))
     \<and> (\<forall>k. k \<notin> set ns \<longrightarrow> map_of m' k = map_of m k)
     \<and> (set ns \<subseteq> fst ` set m \<longrightarrow> map fst m' = map fst m)"
  using assms
proof (induction ns arbitrary: m box)
  case Nil
  then show ?case by simp
next
  case (Cons n ns)
  from Cons.prems have ne: "box \<noteq> []" by auto
  let ?m1 = "AList.update n (last box) m"
  from Cons.prems have len: "length (butlast box) = length ns" and dist: "distinct ns"
    and nn: "n \<notin> set ns" by auto
  from Cons.IH [OF len dist, of ?m1] obtain m' where
    run: "(update_pop ?m1 ns (butlast box) :: 'e error + ('k \<times> 'k) list) = Inr m'"
    and idx: "\<forall>i < length ns. map_of m' (ns ! i) = Some (butlast box ! (length ns - 1 - i))"
    and oth: "\<forall>k. k \<notin> set ns \<longrightarrow> map_of m' k = map_of ?m1 k"
    and keys: "set ns \<subseteq> fst ` set ?m1 \<longrightarrow> map fst m' = map fst ?m1"
    by blast
  have 1: "(update_pop m (n # ns) box :: 'e error + ('k \<times> 'k) list) = Inr m'"
    using run by (simp add: pop_nonempty [OF ne])
  have 2: "map_of m' ((n # ns) ! i) = Some (box ! (length (n # ns) - 1 - i))"
    if i: "i < length (n # ns)" for i
  proof (cases i)
    case 0
    have "map_of m' n = map_of ?m1 n" using oth nn by simp
    also have "\<dots> = Some (last box)" by (simp add: AList.update_conv')
    also have "last box = box ! (length box - 1)" using ne by (rule last_conv_nth)
    finally show ?thesis using 0 Cons.prems(1) by simp
  next
    case (Suc j)
    with i have j: "j < length ns" by simp
    then have "map_of m' (ns ! j) = Some (butlast box ! (length ns - 1 - j))" using idx by simp
    moreover have "butlast box ! (length ns - 1 - j) = box ! (length ns - 1 - j)"
      using j len by (intro nth_butlast) simp
    ultimately show ?thesis using Suc j by simp
  qed
  have 3: "map_of m' k = map_of m k" if "k \<notin> set (n # ns)" for k
  proof -
    from that have "map_of m' k = map_of ?m1 k" using oth by simp
    also have "\<dots> = map_of m k" using that by (simp add: AList.update_conv')
    finally show ?thesis .
  qed
  have 4: "map fst m' = map fst m" if "set (n # ns) \<subseteq> fst ` set m"
  proof -
    from that have "set ns \<subseteq> fst ` set ?m1" by (auto simp: AList.dom_update)
    with keys have "map fst m' = map fst ?m1" by simp
    also have "\<dots> = map fst m" using that by (simp add: AList.update_keys)
    finally show ?thesis .
  qed
  from 1 2 3 4 show ?case by blast
qed

lemma map_of_zip_same: "k \<in> set ns \<Longrightarrow> map_of (zip ns ns) k = Some k"
  by (induction ns) auto

lemma get_default_Some: "map_of m k = Some v \<Longrightarrow> get_default m k = v"
  by (simp add: get_default_def)

subsection \<open>The inverted mapping\<close>

lemma fold_invert_lookup:
  assumes "\<forall>k. (k, v) \<in> set m \<longrightarrow> k = k0"
  shows "map_of (fold (\<lambda>(k, v). AList.update v (NodeV k)) m acc) v =
     (if v \<in> snd ` set m then Some (NodeV k0) else map_of acc v)"
  using assms
proof (induction m arbitrary: acc)
  case Nil then show ?case by simp
next
  case (Cons p m)
  obtain k w where p: "p = (k, w)" by (cases p)
  from Cons.prems have u: "\<forall>k. (k, v) \<in> set m \<longrightarrow> k = k0" by simp
  have "map_of (fold (\<lambda>(k, v). AList.update v (NodeV k)) m (AList.update w (NodeV k) acc)) v =
     (if v \<in> snd ` set m then Some (NodeV k0) else map_of (AList.update w (NodeV k) acc) v)"
    by (rule Cons.IH [OF u])
  moreover have "w = v \<Longrightarrow> k = k0" using Cons.prems by (simp add: p)
  ultimately show ?case by (auto simp: p AList.update_conv')
qed

lemma fold_invert_keys:
  "fst ` set (fold (\<lambda>(k, v). AList.update v (NodeV k)) m acc) = fst ` set acc \<union> snd ` set m"
proof (induction m arbitrary: acc)
  case Nil then show ?case by simp
next
  case (Cons p m)
  obtain k w where p: "p = (k, w)" by (cases p)
  show ?case by (auto simp: p Cons AList.dom_update)
qed

lemma fold_invert_distinct:
  "distinct (map fst acc) \<Longrightarrow> distinct (map fst (fold (\<lambda>(k, v). AList.update v (NodeV k)) m acc))"
proof (induction m arbitrary: acc)
  case Nil then show ?case by simp
next
  case (Cons p m)
  obtain k w where p: "p = (k, w)" by (cases p)
  show ?case using Cons by (simp add: p AList.distinct_update)
qed

lemma invert_keys: "fst ` set (invert m) = snd ` set m"
  by (simp add: invert_def fold_invert_keys)

lemma invert_distinct: "distinct (map fst (invert m))"
  by (simp add: invert_def fold_invert_distinct)

lemma invert_lookup:
  assumes "(k0, v) \<in> set m" "\<forall>k. (k, v) \<in> set m \<longrightarrow> k = k0"
  shows "map_of (invert m) v = Some (NodeV k0)"
proof -
  from assms(1) have "snd (k0, v) \<in> snd ` set m" by (rule imageI)
  then have "v \<in> snd ` set m" by simp
  then show ?thesis
    unfolding invert_def fold_invert_lookup [OF assms(2)] by simp
qed

lemma mapping_values:
  assumes "distinct (map fst m)"
  shows "snd ` set m = get_default m ` fst ` set m"
proof -
  have gd: "(k, v) \<in> set m \<Longrightarrow> get_default m k = v" for k v
    using assms by (simp add: get_default_def)
  show ?thesis
  proof (intro set_eqI iffI)
    fix x assume "x \<in> snd ` set m"
    then obtain k where kx: "(k, x) \<in> set m" by auto
    then have "fst (k, x) \<in> fst ` set m" by (intro imageI)
    with gd [OF kx] show "x \<in> get_default m ` fst ` set m" by auto
  next
    fix x assume "x \<in> get_default m ` fst ` set m"
    then obtain k v where kv: "(k, v) \<in> set m" "x = get_default m k" by auto
    from kv(1) have "snd (k, v) \<in> snd ` set m" by (intro imageI)
    with gd [OF kv(1)] kv(2) show "x \<in> snd ` set m" by simp
  qed
qed

lemma invert_origin:
  assumes "distinct (map fst m)" "inj_on (get_default m) (fst ` set m)" "k \<in> fst ` set m"
  shows "map_of (invert m) (get_default m k) = Some (NodeV k)"
proof -
  have gd: "(k', v) \<in> set m \<Longrightarrow> get_default m k' = v" for k' v
    using assms(1) by (simp add: get_default_def)
  from assms(3) obtain v where kv: "(k, v) \<in> set m" by auto
  have "\<forall>k'. (k', v) \<in> set m \<longrightarrow> k' = k"
  proof (intro allI impI)
    fix k' assume a: "(k', v) \<in> set m"
    then have eq: "get_default m k' = get_default m k" using gd kv by simp
    from a have "fst (k', v) \<in> fst ` set m" by (intro imageI)
    then have k'in: "k' \<in> fst ` set m" by simp
    from inj_onD [OF assms(2) eq k'in assms(3)] show "k' = k" .
  qed
  from invert_lookup [OF kv this] gd [OF kv] show ?thesis by simp
qed

section \<open>The operations on the store\<close>

subsection \<open>Selecting nodes by attribute\<close>

lemma node_attr_mem:
  "distinct (nodes G) \<Longrightarrow> (n, d) \<in> set (node G) \<Longrightarrow> node_attr G n key = d key"
  by (simp add: node_attr_def nodes_def)

lemma select_nodes_attr:
  assumes "distinct (nodes G)" "\<forall>n \<in> set (nodes G). node_attr G n key \<noteq> None"
  shows "select_nodes key v (node G) = Inr (filter (\<lambda>n. node_attr G n key = Some v) (nodes G))"
proof -
  have 1: "\<forall>(n, d) \<in> set (node G). d key \<noteq> None"
  proof -
    have "d key \<noteq> None" if nd: "(n, d) \<in> set (node G)" for n d
    proof
      assume k: "d key = None"
      from nd have "fst (n, d) \<in> fst ` set (node G)" by (intro imageI)
      then have nin: "n \<in> set (nodes G)" by (simp add: nodes_def)
      have "node_attr G n key = None"
        using node_attr_mem [OF assms(1) nd, of key] k by simp
      with nin show False using assms(2) by blast
    qed
    then show ?thesis by blast
  qed
  have 2: "map fst (filter (\<lambda>(n, d). d key = Some v) (node G)) =
      filter (\<lambda>n. node_attr G n key = Some v) (nodes G)"
    unfolding nodes_def filter_map
    by (rule arg_cong [where f = "map fst"], rule filter_cong)
       (use node_attr_mem [OF assms(1)] in \<open>auto\<close>)
  show ?thesis unfolding select_nodes_ok [OF 1] 2 ..
qed

subsection \<open>set_node_attributes\<close>

lemma set_node_attributes_spec:
  assumes "fst ` set vals \<subseteq> set (nodes (graphs h G))" "distinct (map fst vals)"
  shows "\<exists>h'. set_node_attributes G name vals h = Inr h'
     \<and> nodes (graphs h' G) = nodes (graphs h G)
     \<and> edge (graphs h' G) = edge (graphs h G)
     \<and> (\<forall>x key. node_attr (graphs h' G) x key =
          (if key = name \<and> x \<in> fst ` set vals then map_of vals x
           else node_attr (graphs h G) x key))"
  using assms
proof (induction vals arbitrary: h)
  case Nil
  then show ?case by simp
next
  case (Cons p vals)
  obtain n v where p: "p = (n, v)" by (cases p)
  from Cons.prems p have nin: "n \<in> fst ` set (node (graphs h G))" by (simp add: nodes_def)
  then have "map_of (node (graphs h G)) n \<noteq> None" by (simp add: map_of_eq_None_iff)
  then obtain d where d: "map_of (node (graphs h G)) n = Some d" by blast
  let ?h1 = "h\<lparr>graphs := (graphs h)(G :=
               (graphs h G)\<lparr>node := AList.update n (d(name \<mapsto> v)) (node (graphs h G))\<rparr>)\<rparr>"
  have n1: "nodes (graphs ?h1 G) = nodes (graphs h G)"
    using nin by (simp add: nodes_def AList.update_keys)
  have e1: "edge (graphs ?h1 G) = edge (graphs h G)" by simp
  have a1: "node_attr (graphs ?h1 G) x key =
      (if x = n then (d(name \<mapsto> v)) key else node_attr (graphs h G) x key)" for x key
    by (simp add: node_attr_def AList.update_conv')
  from Cons.prems p have dist: "distinct (map fst vals)" and nn: "n \<notin> fst ` set vals"
    by auto
  have sub: "fst ` set vals \<subseteq> set (nodes (graphs ?h1 G))"
    unfolding n1 using Cons.prems p by auto
  from Cons.IH [OF sub dist] obtain h' where
    run: "set_node_attributes G name vals ?h1 = Inr h'"
    and n2: "nodes (graphs h' G) = nodes (graphs ?h1 G)"
    and e2: "edge (graphs h' G) = edge (graphs ?h1 G)"
    and a2: "\<forall>x key. node_attr (graphs h' G) x key =
          (if key = name \<and> x \<in> fst ` set vals then map_of vals x
           else node_attr (graphs ?h1 G) x key)"
    by blast
  have r: "set_node_attributes G name (p # vals) h = Inr h'"
    using run d by (simp add: p)
  have a: "node_attr (graphs h' G) x key =
          (if key = name \<and> x \<in> fst ` set (p # vals) then map_of (p # vals) x
           else node_attr (graphs h G) x key)" for x key
  proof (cases "x = n")
    case True
    with nn a2 a1 d show ?thesis by (auto simp: p node_attr_def)
  next
    case False
    with a2 a1 show ?thesis by (simp add: p)
  qed
  have nl: "nodes (graphs h' G) = nodes (graphs h G)" using n1 n2 by simp
  have el: "edge (graphs h' G) = edge (graphs h G)" using e1 e2 by simp
  show ?case
  proof (intro exI [of _ h'] conjI allI)
    show "set_node_attributes G name (p # vals) h = Inr h'" by (rule r)
    show "nodes (graphs h' G) = nodes (graphs h G)" by (rule nl)
    show "edge (graphs h' G) = edge (graphs h G)" by (rule el)
    show "node_attr (graphs h' G) x key =
          (if key = name \<and> x \<in> fst ` set (p # vals) then map_of (p # vals) x
           else node_attr (graphs h G) x key)" for x key by (rule a)
  qed
qed

subsection \<open>set_nodes\<close>

lemma set_nodes_typed:
  "set_nodes fg ns h = Inr h' \<Longrightarrow> \<forall>n \<in> set ns. node_type n \<noteq> None"
proof (induction ns arbitrary: h)
  case Nil then show ?case by simp
next
  case (Cons n ns)
  then obtain h1 where 1: "set_node fg n Map.empty h = Inr h1" and 2: "set_nodes fg ns h1 = Inr h'"
    by (auto split: sum.splits)
  from 1 have "node_type n \<noteq> None" by (cases n) (auto simp: set_node_def)
  with Cons.IH [OF 2] show ?case by simp
qed

lemma set_nodes_spec:
  assumes "\<forall>n \<in> set ns. node_type n \<noteq> None" "distinct ns"
    and "set ns \<inter> set (nodes (graphs h fg)) = {}"
  shows "\<exists>h'. set_nodes fg ns h = Inr h'
     \<and> nodes (graphs h' fg) = nodes (graphs h fg) @ ns
     \<and> edge (graphs h' fg) = edge (graphs h fg)
     \<and> (\<forall>x key. node_attr (graphs h' fg) x key =
          (if x \<in> set ns then (if key = ''type'' then map_option TypeV (node_type x) else None)
           else node_attr (graphs h fg) x key))"
  using assms
proof (induction ns arbitrary: h)
  case Nil
  then show ?case by simp
next
  case (Cons n ns)
  from Cons.prems obtain k t where n: "n = Inst k t" by (cases n) auto
  let ?h1 = "h\<lparr>graphs := (graphs h)(fg := add_node n [''type'' \<mapsto> TypeV t] (graphs h fg)),
               owner := (owner h)(k \<mapsto> fg)\<rparr>"
  have s1: "set_node fg n Map.empty h = Inr ?h1" by (simp add: set_node_def n)
  from Cons.prems have new: "n \<notin> set (nodes (graphs h fg))" by auto
  then have mo: "map_of (node (graphs h fg)) n = None"
    by (simp add: nodes_def map_of_eq_None_iff)
  have n1: "nodes (graphs ?h1 fg) = nodes (graphs h fg) @ [n]"
    using new by (simp add: nodes_add_node)
  have e1: "edge (graphs ?h1 fg) = edge (graphs h fg)" by simp
  have a1: "node_attr (graphs ?h1 fg) x key =
     (if x = n then (if key = ''type'' then Some (TypeV t) else None) else node_attr (graphs h fg) x key)"
    for x key
    using mo by (simp add: node_attr_add_node)
  from Cons.prems have p12: "\<forall>n \<in> set ns. node_type n \<noteq> None" "distinct ns"
    and nn: "n \<notin> set ns"
    by auto
  have p3: "set ns \<inter> set (nodes (graphs ?h1 fg)) = {}"
    unfolding n1 using Cons.prems by auto
  note p = p12 p3
  from Cons.IH [OF p] obtain h' where
    run: "set_nodes fg ns ?h1 = Inr h'"
    and n2: "nodes (graphs h' fg) = nodes (graphs ?h1 fg) @ ns"
    and e2: "edge (graphs h' fg) = edge (graphs ?h1 fg)"
    and a2: "\<forall>x key. node_attr (graphs h' fg) x key =
          (if x \<in> set ns then (if key = ''type'' then map_option TypeV (node_type x) else None)
           else node_attr (graphs ?h1 fg) x key)"
    by blast
  have r: "set_nodes fg (n # ns) h = Inr h'" using s1 run by simp
  have nl: "nodes (graphs h' fg) = nodes (graphs h fg) @ n # ns" using n1 n2 by simp
  have el: "edge (graphs h' fg) = edge (graphs h fg)" using e1 e2 by simp
  have a: "node_attr (graphs h' fg) x key =
          (if x \<in> set (n # ns) then (if key = ''type'' then map_option TypeV (node_type x) else None)
           else node_attr (graphs h fg) x key)" for x key
    using a2 a1 nn by (auto simp: n)
  show ?case
  proof (intro exI [of _ h'] conjI allI)
    show "set_nodes fg (n # ns) h = Inr h'" by (rule r)
    show "nodes (graphs h' fg) = nodes (graphs h fg) @ n # ns" by (rule nl)
    show "edge (graphs h' fg) = edge (graphs h fg)" by (rule el)
    show "node_attr (graphs h' fg) x key =
          (if x \<in> set (n # ns) then (if key = ''type'' then map_option TypeV (node_type x) else None)
           else node_attr (graphs h fg) x key)" for x key by (rule a)
  qed
qed

subsection \<open>set_edges\<close>

lemma set_edges_spec:
  assumes "\<forall>e \<in> set es. fst e \<in> set (nodes (graphs h fg)) \<and> snd e \<in> set (nodes (graphs h fg))"
  shows "node (graphs (set_edges fg es h) fg) = node (graphs h fg)
     \<and> set (edge_keys (graphs (set_edges fg es h) fg)) \<subseteq> set (edge_keys (graphs h fg)) \<union> set es"
  using assms
proof (induction es arbitrary: h)
  case Nil then show ?case by simp
next
  case (Cons e es)
  obtain s t where e: "e = (s, t)" by (cases e)
  let ?h1 = "set_edge fg s t NoneV h"
  from Cons.prems e have st: "s \<in> set (nodes (graphs h fg))" "t \<in> set (nodes (graphs h fg))"
    by auto
  have n1: "node (graphs ?h1 fg) = node (graphs h fg)"
    using st by (simp add: set_edge_def node_add_edge_present)
  have e1: "set (edge_keys (graphs ?h1 fg)) \<subseteq> insert (s, t) (set (edge_keys (graphs h fg)))"
    using edge_keys_add_edge_subset [of s t _ "graphs h fg"] by (simp add: set_edge_def)
  have "\<forall>e \<in> set es. fst e \<in> set (nodes (graphs ?h1 fg)) \<and> snd e \<in> set (nodes (graphs ?h1 fg))"
    using Cons.prems n1 by (simp add: nodes_def)
  from Cons.IH [OF this] have
    2: "node (graphs (set_edges fg es ?h1) fg) = node (graphs ?h1 fg)"
    and 3: "set (edge_keys (graphs (set_edges fg es ?h1) fg)) \<subseteq> set (edge_keys (graphs ?h1 fg)) \<union> set es"
    by blast+
  from 3 e1 have "set (edge_keys (graphs (set_edges fg es ?h1) fg))
      \<subseteq> set (edge_keys (graphs h fg)) \<union> insert (s, t) (set es)" by blast
  with 2 n1 show ?case by (simp add: e)
qed

subsection \<open>One factor node for an edge\<close>

lemma factor_step:
  assumes "n \<notin> set (nodes G)" "u \<in> set (nodes G)" "v \<in> set (nodes G)"
    and "\<forall>e \<in> set (edge_keys G). fst e \<in> set (nodes G) \<and> snd e \<in> set (nodes G)"
  shows "nodes (add_edge n v a2 (add_edge u n a1 (add_node n a0 G))) = nodes G @ [n]"
    and "edge_keys (add_edge n v a2 (add_edge u n a1 (add_node n a0 G))) =
           edge_keys G @ (if u = v then [(u, n)] else [(u, n), (n, v)])"
    and "node_attr (add_edge n v a2 (add_edge u n a1 (add_node n a0 G))) x key =
           (if x = n then a0 key else node_attr G x key)"
proof -
  let ?G1 = "add_node n a0 G"
  let ?G2 = "add_edge u n a1 ?G1"
  let ?G3 = "add_edge n v a2 ?G2"
  have n1: "nodes ?G1 = nodes G @ [n]" using assms(1) by (simp add: nodes_add_node)
  have nd2: "node ?G2 = node ?G1"
    by (rule node_add_edge_present) (use assms n1 in auto)
  then have n2: "nodes ?G2 = nodes ?G1" by (simp add: nodes_def)
  have nd3: "node ?G3 = node ?G2"
    by (rule node_add_edge_present) (use assms n1 n2 in auto)
  show "nodes ?G3 = nodes G @ [n]" using nd3 nd2 n1 by (simp add: nodes_def)
  have mo: "map_of (node G) n = None"
    using assms(1) by (simp add: nodes_def map_of_eq_None_iff)
  have "node_attr ?G3 x key = node_attr ?G1 x key"
    using nd3 nd2 by (simp add: node_attr_def)
  then show "node_attr ?G3 x key = (if x = n then a0 key else node_attr G x key)"
    using mo by (simp add: node_attr_add_node)
  have un: "u \<noteq> n" "v \<noteq> n" using assms by auto
  have no: "\<not> same_edge e' (u, n)" "\<not> same_edge e' (n, v)" if "e' \<in> set (edge_keys G)" for e'
    using assms(4) that assms(1) by (cases e'; force)+
  have k2: "edge_keys ?G2 = edge_keys G @ [(u, n)]"
    unfolding edge_keys_add_edge using no(1) by auto
  show "edge_keys ?G3 = edge_keys G @ (if u = v then [(u, n)] else [(u, n), (n, v)])"
    unfolding edge_keys_add_edge [of n v a2 ?G2] k2 using no(2) un by auto
qed

lemma add_factors_step:
  assumes "i \<noteq> []" "fnode (last i) NoneV = Inst kk t"
  shows "add_factors fg fnode (e # es) i h = add_factors fg fnode es (butlast i)
     (h\<lparr>owner := (owner h)(kk \<mapsto> fg),
        graphs := (graphs h)(fg :=
         add_edge (Inst kk t) (snd e) [''object'' \<mapsto> EdgeV (Inst kk t) (snd e) NoneV]
          (add_edge (fst e) (Inst kk t) [''object'' \<mapsto> EdgeV (fst e) (Inst kk t) NoneV]
             (add_node (Inst kk t) [''type'' \<mapsto> TypeV t] (graphs h fg))))\<rparr>)"
  using assms by (simp add: pop_nonempty Let_def set_node_def set_edge_def)

subsection \<open>The loop that adds the factor nodes\<close>

lemma add_factors_spec:
  assumes tyf: "\<forall>k. node_type (fnode k NoneV) = Some factor_node"
    and injf: "inj (\<lambda>k. fnode k NoneV)"
    and "length i = length es" "distinct i"
    and "\<forall>k \<in> set i. fnode k NoneV \<notin> set (nodes (graphs h fg))"
    and "\<forall>e \<in> set es. fst e \<in> set (nodes (graphs h fg)) \<and> snd e \<in> set (nodes (graphs h fg))"
    and "\<forall>e \<in> set (edge_keys (graphs h fg)).
           fst e \<in> set (nodes (graphs h fg)) \<and> snd e \<in> set (nodes (graphs h fg))"
  shows "\<exists>h'. add_factors fg fnode es i h = Inr h'
     \<and> nodes (graphs h' fg) = nodes (graphs h fg) @ map (\<lambda>k. fnode k NoneV) (rev i)
     \<and> (\<forall>x key. node_attr (graphs h' fg) x key =
          (if x \<in> (\<lambda>k. fnode k NoneV) ` set i
           then (if key = ''type'' then Some (TypeV factor_node) else None)
           else node_attr (graphs h fg) x key))
     \<and> (\<forall>e' \<in> set (edge_keys (graphs h' fg)). e' \<in> set (edge_keys (graphs h fg)) \<or>
          (\<exists>e \<in> set es. \<exists>k \<in> set i. e' = (fst e, fnode k NoneV) \<or> e' = (fnode k NoneV, snd e)))
     \<and> ((\<forall>e \<in> set es. fst e \<noteq> snd e) \<longrightarrow>
          length (edge (graphs h' fg)) = length (edge (graphs h fg)) + 2 * length es)"
  using assms(3-)
proof (induction es arbitrary: i h)
  case Nil
  then show ?case by simp
next
  case (Cons e es)
  from Cons.prems(1) have ne: "i \<noteq> []" by auto
  define k where "k = last i"
  define i' where "i' = butlast i"
  have i: "i = i' @ [k]" using ne by (simp add: k_def i'_def)
  from tyf have "node_type (fnode k NoneV) = Some factor_node" by simp
  then obtain kk where n: "fnode k NoneV = Inst kk factor_node"
    by (cases "fnode k NoneV") auto
  let ?n = "Inst kk factor_node"
  let ?G = "graphs h fg"
  let ?G3 = "add_edge ?n (snd e) [''object'' \<mapsto> EdgeV ?n (snd e) NoneV]
          (add_edge (fst e) ?n [''object'' \<mapsto> EdgeV (fst e) ?n NoneV]
             (add_node ?n [''type'' \<mapsto> TypeV factor_node] ?G))"
  let ?h2 = "h\<lparr>owner := (owner h)(kk \<mapsto> fg), graphs := (graphs h)(fg := ?G3)\<rparr>"
  have step: "add_factors fg fnode (e # es) i h = add_factors fg fnode es i' ?h2"
    unfolding i'_def by (rule add_factors_step [OF ne]) (simp add: n [unfolded k_def])
  have g2: "graphs ?h2 fg = ?G3" by simp
  have new: "?n \<notin> set (nodes ?G)" using Cons.prems(3) i n by auto
  have uv: "fst e \<in> set (nodes ?G)" "snd e \<in> set (nodes ?G)" using Cons.prems(4) by auto
  note fs = factor_step [OF new uv Cons.prems(5)]
  have N2: "nodes (graphs ?h2 fg) = nodes ?G @ [?n]" unfolding g2 by (rule fs(1))
  have K2: "edge_keys (graphs ?h2 fg) =
      edge_keys ?G @ (if fst e = snd e then [(fst e, ?n)] else [(fst e, ?n), (?n, snd e)])"
    unfolding g2 by (rule fs(2))
  have A2: "node_attr (graphs ?h2 fg) x key =
      (if x = ?n then [''type'' \<mapsto> TypeV factor_node] key else node_attr ?G x key)" for x key
    unfolding g2 by (rule fs(3))
  have p1: "length i' = length es" using Cons.prems(1) i by simp
  have p2: "distinct i'" using Cons.prems(2) i by simp
  have kn: "k \<notin> set i'" using Cons.prems(2) i by simp
  have p3: "\<forall>k' \<in> set i'. fnode k' NoneV \<notin> set (nodes (graphs ?h2 fg))"
  proof
    fix k' assume k': "k' \<in> set i'"
    then have "fnode k' NoneV \<notin> set (nodes ?G)" using Cons.prems(3) i by simp
    moreover have "fnode k' NoneV \<noteq> ?n"
    proof
      assume "fnode k' NoneV = ?n"
      then have "(\<lambda>k. fnode k NoneV) k' = (\<lambda>k. fnode k NoneV) k" using n by simp
      from injD [OF injf this] k' kn show False by simp
    qed
    ultimately show "fnode k' NoneV \<notin> set (nodes (graphs ?h2 fg))" unfolding N2 by simp
  qed
  have p4: "\<forall>e \<in> set es. fst e \<in> set (nodes (graphs ?h2 fg)) \<and> snd e \<in> set (nodes (graphs ?h2 fg))"
    unfolding N2 using Cons.prems(4) by simp
  have p5: "\<forall>e \<in> set (edge_keys (graphs ?h2 fg)).
      fst e \<in> set (nodes (graphs ?h2 fg)) \<and> snd e \<in> set (nodes (graphs ?h2 fg))"
    unfolding N2 K2 using Cons.prems(5) uv by auto
  from Cons.IH [OF p1 p2 p3 p4 p5] obtain h' where
    run: "add_factors fg fnode es i' ?h2 = Inr h'"
    and n3: "nodes (graphs h' fg) = nodes (graphs ?h2 fg) @ map (\<lambda>k. fnode k NoneV) (rev i')"
    and a3: "\<forall>x key. node_attr (graphs h' fg) x key =
          (if x \<in> (\<lambda>k. fnode k NoneV) ` set i'
           then (if key = ''type'' then Some (TypeV factor_node) else None)
           else node_attr (graphs ?h2 fg) x key)"
    and e3: "\<forall>e' \<in> set (edge_keys (graphs h' fg)). e' \<in> set (edge_keys (graphs ?h2 fg)) \<or>
          (\<exists>e \<in> set es. \<exists>k \<in> set i'. e' = (fst e, fnode k NoneV) \<or> e' = (fnode k NoneV, snd e))"
    and l3: "(\<forall>e \<in> set es. fst e \<noteq> snd e) \<longrightarrow>
          length (edge (graphs h' fg)) = length (edge (graphs ?h2 fg)) + 2 * length es"
    by blast
  have c1: "add_factors fg fnode (e # es) i h = Inr h'" using step run by simp
  have c2: "nodes (graphs h' fg) = nodes ?G @ map (\<lambda>k. fnode k NoneV) (rev i)"
    unfolding n3 N2 by (simp add: i n)
  have c3: "node_attr (graphs h' fg) x key =
          (if x \<in> (\<lambda>k. fnode k NoneV) ` set i
           then (if key = ''type'' then Some (TypeV factor_node) else None)
           else node_attr ?G x key)" for x key
    unfolding a3 [rule_format] A2 by (auto simp: i n)
  have c4: "e' \<in> set (edge_keys ?G) \<or>
          (\<exists>e0 \<in> set (e # es). \<exists>k \<in> set i. e' = (fst e0, fnode k NoneV) \<or> e' = (fnode k NoneV, snd e0))"
    if e': "e' \<in> set (edge_keys (graphs h' fg))" for e'
  proof -
    from e3 e' consider (a) "e' \<in> set (edge_keys (graphs ?h2 fg))"
      | (b) "\<exists>e \<in> set es. \<exists>k \<in> set i'. e' = (fst e, fnode k NoneV) \<or> e' = (fnode k NoneV, snd e)"
      by blast
    then show ?thesis
    proof cases
      case a
      then have "e' \<in> set (edge_keys ?G) \<or> e' = (fst e, fnode k NoneV) \<or> e' = (fnode k NoneV, snd e)"
        unfolding K2 by (auto simp: n split: if_splits)
      moreover have "k \<in> set i" using i by simp
      ultimately show ?thesis by auto
    next
      case b
      then show ?thesis using i by auto
    qed
  qed
  have l2: "length (edge_keys (graphs ?h2 fg)) = length (edge_keys ?G) + 2" if "fst e \<noteq> snd e"
    unfolding K2 using that by simp
  have c5: "length (edge (graphs h' fg)) = length (edge ?G) + 2 * length (e # es)"
    if lf: "\<forall>e0 \<in> set (e # es). fst e0 \<noteq> snd e0"
  proof -
    from lf have "\<forall>e \<in> set es. fst e \<noteq> snd e" "fst e \<noteq> snd e" by auto
    with l3 l2 have "length (edge (graphs h' fg)) = length (edge (graphs ?h2 fg)) + 2 * length es"
      "length (edge (graphs ?h2 fg)) = length (edge ?G) + 2" by auto
    then show ?thesis by simp
  qed
  show ?case
  proof (intro exI [of _ h'] conjI allI ballI impI)
    show "add_factors fg fnode (e # es) i h = Inr h'" by (rule c1)
    show "nodes (graphs h' fg) = nodes ?G @ map (\<lambda>k. fnode k NoneV) (rev i)" by (rule c2)
    show "node_attr (graphs h' fg) x key =
          (if x \<in> (\<lambda>k. fnode k NoneV) ` set i
           then (if key = ''type'' then Some (TypeV factor_node) else None)
           else node_attr ?G x key)" for x key by (rule c3)
    show "e' \<in> set (edge_keys ?G) \<or>
          (\<exists>e0 \<in> set (e # es). \<exists>k \<in> set i. e' = (fst e0, fnode k NoneV) \<or> e' = (fnode k NoneV, snd e0))"
      if "e' \<in> set (edge_keys (graphs h' fg))" for e' using that by (rule c4)
    show "length (edge (graphs h' fg)) = length (edge ?G) + 2 * length (e # es)"
      if "\<forall>e0 \<in> set (e # es). fst e0 \<noteq> snd e0" using that by (rule c5)
  qed
qed

subsection \<open>The mapping of the plain conversion\<close>

lemma plain_mapping:
  assumes "distinct ns" "inj vnode"
  shows "\<exists>m1. (update_pop (zip ns ns) ns (map vnode [0..<length ns]) :: 'e error + ('k \<times> 'k) list) = Inr m1
     \<and> map fst m1 = ns
     \<and> (\<forall>i < length ns. get_default m1 (ns ! i) = vnode (length ns - 1 - i))
     \<and> inj_on (get_default m1) (set ns)"
proof -
  have len: "length (map vnode [0..<length ns]) = length ns" by simp
  from update_pop_spec [OF len assms(1), of "zip ns ns"] obtain m1 where
    run: "(update_pop (zip ns ns) ns (map vnode [0..<length ns]) :: 'e error + ('k \<times> 'k) list) = Inr m1"
    and idx: "\<forall>i < length ns. map_of m1 (ns ! i) = Some (map vnode [0..<length ns] ! (length ns - 1 - i))"
    and keys: "set ns \<subseteq> fst ` set (zip ns ns) \<longrightarrow> map fst m1 = map fst (zip ns ns)"
    by blast
  have z: "map fst (zip ns ns) = ns" by (simp add: map_fst_zip)
  have "fst ` set (zip ns ns) = set ns" by (simp only: set_map [symmetric] z)
  with keys z have k: "map fst m1 = ns" by simp
  have g: "get_default m1 (ns ! i) = vnode (length ns - 1 - i)" if "i < length ns" for i
    using idx that by (simp add: get_default_def)
  have "inj_on (get_default m1) (set ns)"
  proof (rule inj_onI)
    fix a b assume a: "a \<in> set ns" and b: "b \<in> set ns"
      and eq: "get_default m1 a = get_default m1 b"
    from a obtain i where i: "i < length ns" "a = ns ! i" by (auto simp: in_set_conv_nth)
    from b obtain j where j: "j < length ns" "b = ns ! j" by (auto simp: in_set_conv_nth)
    from eq g [OF i(1)] g [OF j(1)] i j
    have "vnode (length ns - 1 - i) = vnode (length ns - 1 - j)" by simp
    from injD [OF assms(2) this] i(1) j(1) have "i = j" by arith
    with i j show "a = b" by simp
  qed
  with run k g show ?thesis by blast
qed

lemma relabel_nodes_graphs:
  "graphs (snd (relabel_nodes graph m h)) r =
     (if r = next_ref h then relabel_copy (graphs h graph) m else graphs h r)"
  by (simp add: relabel_nodes_def new_graph_def)

lemma convert_plain_unfold:
  "convert_plain graph fg vnode fnode m h =
     (case update_pop m (nodes (graphs h graph)) (map vnode [0..<number_of_nodes (graphs h graph)]) of
        Inl e \<Rightarrow> Inl e
      | Inr m1 \<Rightarrow>
          (case set_nodes fg (nodes (graphs (snd (relabel_nodes graph m1 h)) (next_ref h)))
                  (snd (relabel_nodes graph m1 h)) of
             Inl e \<Rightarrow> Inl e
           | Inr h2 \<Rightarrow>
               (case add_factors fg fnode (edges (graphs h2 (next_ref h)))
                       [0..<number_of_edges (graphs h2 (next_ref h))] h2 of
                  Inl e \<Rightarrow> Inl e
                | Inr h3 \<Rightarrow> Inr (m1, h3))))"
  by (simp add: convert_plain_def relabel_nodes_def new_graph_def split: sum.splits)

section \<open>Conversion: the result\<close>

subsection \<open>The plain conversion\<close>

lemma number_of_nodes_length: "number_of_nodes G = length (nodes G)"
  by (simp add: number_of_nodes_def nodes_def)

lemma relabel_loop_free:
  assumes "is_graph G" "loop_free G" "inj_on (get_default m) (set (nodes G))"
    and "e \<in> set (edges (relabel_copy G m))"
  shows "fst e \<noteq> snd e"
proof -
  from relabel_copy_edges_mem [OF assms(4)] obtain e0 where
    e0: "e0 \<in> set (edge_keys G)" "same_edge e (relabel_edge (get_default m) e0)" by blast
  from assms(2) e0(1) have ne: "fst e0 \<noteq> snd e0" by (auto simp: loop_free_def)
  from assms(1) e0(1) have "fst e0 \<in> set (nodes G)" "snd e0 \<in> set (nodes G)"
    by (auto simp: is_graph_def)
  with ne assms(3) have "get_default m (fst e0) \<noteq> get_default m (snd e0)"
    by (auto dest: inj_onD)
  with e0(2) show ?thesis by (cases e) (auto simp: relabel_edge_def)
qed

lemma convert_plain_spec:
  fixes h :: "'a heap"
  assumes fgn: "fg \<noteq> next_ref h" and emp: "graphs h fg = empty_graph"
    and G: "is_graph (graphs h graph)"
    and tv: "\<forall>i. node_type (vnode i) = Some variable_node"
    and tf: "\<forall>i. node_type (fnode i NoneV) = Some factor_node"
    and iv: "inj vnode" and ifn: "inj (\<lambda>i. fnode i NoneV)"
  shows "\<exists>m1 h3 Vs.
       convert_plain graph fg vnode fnode
         (zip (nodes (graphs h graph)) (nodes (graphs h graph))) h = Inr (m1, h3)
     \<and> map fst m1 = nodes (graphs h graph)
     \<and> (\<forall>i < length (nodes (graphs h graph)).
           get_default m1 (nodes (graphs h graph) ! i) =
             vnode (length (nodes (graphs h graph)) - 1 - i))
     \<and> inj_on (get_default m1) (set (nodes (graphs h graph)))
     \<and> distinct Vs \<and> set Vs = get_default m1 ` set (nodes (graphs h graph))
     \<and> nodes (graphs h3 fg) =
          Vs @ map (\<lambda>k. fnode k NoneV) (rev [0..<number_of_edges (graphs h graph)])
     \<and> (\<forall>x key. node_attr (graphs h3 fg) x key =
          (if x \<in> (\<lambda>k. fnode k NoneV) ` {0..<number_of_edges (graphs h graph)}
           then (if key = ''type'' then Some (TypeV factor_node) else None)
           else if x \<in> set Vs then (if key = ''type'' then Some (TypeV variable_node) else None)
           else None))
     \<and> (\<forall>e' \<in> set (edge_keys (graphs h3 fg)). \<exists>k < number_of_edges (graphs h graph).
           (fst e' \<in> set Vs \<and> snd e' = fnode k NoneV) \<or> (fst e' = fnode k NoneV \<and> snd e' \<in> set Vs))
     \<and> (loop_free (graphs h graph) \<longrightarrow>
           length (edge (graphs h3 fg)) = 2 * number_of_edges (graphs h graph))"
proof -
  let ?G = "graphs h graph"
  let ?ns = "nodes ?G"
  let ?E = "number_of_edges ?G"
  have dns: "distinct ?ns" using G by (simp add: is_graph_def)
  from plain_mapping [OF dns iv] obtain m1 where
    up: "(update_pop (zip ?ns ?ns) ?ns (map vnode [0..<length ?ns])
            :: 'a error + ('a Node \<times> 'a Node) list) = Inr m1"
    and k: "map fst m1 = ?ns"
    and g: "\<forall>i < length ?ns. get_default m1 (?ns ! i) = vnode (length ?ns - 1 - i)"
    and inj: "inj_on (get_default m1) (set ?ns)"
    by blast
  let ?g = "get_default m1"
  let ?H = "relabel_copy ?G m1"
  let ?h1 = "snd (relabel_nodes graph m1 h)"
  let ?Vs = "nodes ?H"
  have H: "graphs ?h1 (next_ref h) = ?H" by (simp add: relabel_nodes_graphs)
  have F1: "graphs ?h1 fg = empty_graph" using fgn emp by (simp add: relabel_nodes_graphs)
  have Vset: "set ?Vs = ?g ` set ?ns" by (rule relabel_copy_nodes [OF G])
  have Vd: "distinct ?Vs" by (rule relabel_copy_nodes_distinct)
  have gv: "\<exists>j. ?g n = vnode j" if "n \<in> set ?ns" for n
  proof -
    from that obtain i where "i < length ?ns" "n = ?ns ! i" by (auto simp: in_set_conv_nth)
    with g show ?thesis by auto
  qed
  have Vt: "node_type x = Some variable_node" if "x \<in> set ?Vs" for x
  proof -
    from that Vset obtain n where "n \<in> set ?ns" "x = ?g n" by auto
    with gv obtain j where "x = vnode j" by auto
    with tv show ?thesis by simp
  qed
  have s1: "\<forall>n \<in> set ?Vs. node_type n \<noteq> None" using Vt by simp
  have s3: "set ?Vs \<inter> set (nodes (graphs ?h1 fg)) = {}"
    unfolding F1 by (simp add: nodes_def empty_graph_def)
  from set_nodes_spec [OF s1 Vd s3] obtain h2 where
    sn: "set_nodes fg ?Vs ?h1 = Inr h2"
    and n2: "nodes (graphs h2 fg) = nodes (graphs ?h1 fg) @ ?Vs"
    and e2: "edge (graphs h2 fg) = edge (graphs ?h1 fg)"
    and a2: "\<forall>x key. node_attr (graphs h2 fg) x key =
          (if x \<in> set ?Vs then (if key = ''type'' then map_option TypeV (node_type x) else None)
           else node_attr (graphs ?h1 fg) x key)"
    by blast
  have n2': "nodes (graphs h2 fg) = ?Vs"
    unfolding n2 F1 by (simp add: nodes_def empty_graph_def)
  have e2': "edge (graphs h2 fg) = []"
    unfolding e2 F1 by (simp add: empty_graph_def)
  have a2': "node_attr (graphs h2 fg) x key =
      (if x \<in> set ?Vs then (if key = ''type'' then Some (TypeV variable_node) else None) else None)"
    for x key
    unfolding a2 [rule_format] F1 using Vt by (simp add: node_attr_def empty_graph_def)
  have H2: "graphs h2 (next_ref h) = ?H"
    using set_nodes_frame [OF sn] fgn H by simp
  have inj': "inj_on ?g (set (nodes ?G))" by (rule inj)
  have HG: "is_graph ?H" by (rule relabel_copy_is_graph [OF G inj'])
  have EH: "number_of_edges ?H = ?E" by (rule relabel_copy_number_of_edges [OF G inj'])
  have f1: "length [0..<number_of_edges ?H] = length (edges ?H)"
    by (simp add: edges_length [OF HG])
  have f2: "distinct [0..<number_of_edges ?H]" by simp
  have f3: "\<forall>k \<in> set [0..<number_of_edges ?H]. fnode k NoneV \<notin> set (nodes (graphs h2 fg))"
  proof
    fix k' show "fnode k' NoneV \<notin> set (nodes (graphs h2 fg))"
    proof
      assume "fnode k' NoneV \<in> set (nodes (graphs h2 fg))"
      then have "node_type (fnode k' NoneV) = Some variable_node" unfolding n2' by (rule Vt)
      with tf show False by simp
    qed
  qed
  have f4: "\<forall>e \<in> set (edges ?H). fst e \<in> set (nodes (graphs h2 fg)) \<and> snd e \<in> set (nodes (graphs h2 fg))"
    unfolding n2' using edges_endpoints [OF HG] by blast
  have f5: "\<forall>e \<in> set (edge_keys (graphs h2 fg)).
      fst e \<in> set (nodes (graphs h2 fg)) \<and> snd e \<in> set (nodes (graphs h2 fg))"
    by (simp add: e2')
  from add_factors_spec [where fnode = fnode and i = "[0..<number_of_edges ?H]"
      and es = "edges ?H" and h = h2 and fg = fg, OF tf ifn f1 f2 f3 f4 f5] obtain h3 where
    af: "add_factors fg fnode (edges ?H) [0..<number_of_edges ?H] h2 = Inr h3"
    and n3: "nodes (graphs h3 fg) =
        nodes (graphs h2 fg) @ map (\<lambda>k. fnode k NoneV) (rev [0..<number_of_edges ?H])"
    and a3: "\<forall>x key. node_attr (graphs h3 fg) x key =
          (if x \<in> (\<lambda>k. fnode k NoneV) ` set [0..<number_of_edges ?H]
           then (if key = ''type'' then Some (TypeV factor_node) else None)
           else node_attr (graphs h2 fg) x key)"
    and e3: "\<forall>e' \<in> set (edge_keys (graphs h3 fg)). e' \<in> set (edge_keys (graphs h2 fg)) \<or>
          (\<exists>e \<in> set (edges ?H). \<exists>k \<in> set [0..<number_of_edges ?H].
              e' = (fst e, fnode k NoneV) \<or> e' = (fnode k NoneV, snd e))"
    and l3: "(\<forall>e \<in> set (edges ?H). fst e \<noteq> snd e) \<longrightarrow>
          length (edge (graphs h3 fg)) = length (edge (graphs h2 fg)) + 2 * length (edges ?H)"
    by blast
  have up': "(update_pop (zip ?ns ?ns) ?ns (map vnode [0..<number_of_nodes ?G])
            :: 'a error + ('a Node \<times> 'a Node) list) = Inr m1"
    unfolding number_of_nodes_length by (rule up)
  have sn': "set_nodes fg (nodes (graphs ?h1 (next_ref h))) ?h1 = Inr h2"
    unfolding H by (rule sn)
  have af': "add_factors fg fnode (edges (graphs h2 (next_ref h)))
               [0..<number_of_edges (graphs h2 (next_ref h))] h2 = Inr h3"
    unfolding H2 by (rule af)
  have c1: "convert_plain graph fg vnode fnode (zip ?ns ?ns) h = Inr (m1, h3)"
    unfolding convert_plain_unfold by (simp only: up' sn' af' sum.case)
  have c6: "nodes (graphs h3 fg) = ?Vs @ map (\<lambda>k. fnode k NoneV) (rev [0..<?E])"
    unfolding n3 n2' EH ..
  have c7: "node_attr (graphs h3 fg) x key =
          (if x \<in> (\<lambda>k. fnode k NoneV) ` {0..<?E}
           then (if key = ''type'' then Some (TypeV factor_node) else None)
           else if x \<in> set ?Vs then (if key = ''type'' then Some (TypeV variable_node) else None)
           else None)" for x key
    unfolding a3 [rule_format] a2' EH by simp
  have c8: "\<exists>k < ?E. (fst e' \<in> set ?Vs \<and> snd e' = fnode k NoneV)
                \<or> (fst e' = fnode k NoneV \<and> snd e' \<in> set ?Vs)"
    if e': "e' \<in> set (edge_keys (graphs h3 fg))" for e'
  proof -
    from e3 e' e2' obtain e k where
      ek: "e \<in> set (edges ?H)" "k \<in> set [0..<number_of_edges ?H]"
        "e' = (fst e, fnode k NoneV) \<or> e' = (fnode k NoneV, snd e)"
      by auto
    from f4 ek(1) have "fst e \<in> set ?Vs" "snd e \<in> set ?Vs" unfolding n2' by auto
    moreover from ek(2) have "k < ?E" unfolding EH by simp
    ultimately show ?thesis using ek(3) by auto
  qed
  have c9: "length (edge (graphs h3 fg)) = 2 * ?E" if lf: "loop_free ?G"
  proof -
    have "\<forall>e \<in> set (edges ?H). fst e \<noteq> snd e"
      using relabel_loop_free [OF G lf inj'] by blast
    with l3 have "length (edge (graphs h3 fg)) = length (edge (graphs h2 fg)) + 2 * length (edges ?H)"
      by simp
    then show ?thesis unfolding e2' f1 [symmetric] EH by simp
  qed
  show ?thesis
  proof (intro exI [of _ m1] exI [of _ h3] exI [of _ ?Vs] conjI allI ballI impI)
    show "convert_plain graph fg vnode fnode (zip ?ns ?ns) h = Inr (m1, h3)" by (rule c1)
    show "map fst m1 = ?ns" by (rule k)
    show "get_default m1 (?ns ! i) = vnode (length ?ns - 1 - i)" if "i < length ?ns" for i
      using g that by simp
    show "inj_on ?g (set ?ns)" by (rule inj)
    show "distinct ?Vs" by (rule Vd)
    show "set ?Vs = ?g ` set ?ns" by (rule Vset)
    show "nodes (graphs h3 fg) = ?Vs @ map (\<lambda>k. fnode k NoneV) (rev [0..<?E])" by (rule c6)
    show "node_attr (graphs h3 fg) x key =
          (if x \<in> (\<lambda>k. fnode k NoneV) ` {0..<?E}
           then (if key = ''type'' then Some (TypeV factor_node) else None)
           else if x \<in> set ?Vs then (if key = ''type'' then Some (TypeV variable_node) else None)
           else None)" for x key by (rule c7)
    show "\<exists>k < ?E. (fst e' \<in> set ?Vs \<and> snd e' = fnode k NoneV)
                \<or> (fst e' = fnode k NoneV \<and> snd e' \<in> set ?Vs)"
      if "e' \<in> set (edge_keys (graphs h3 fg))" for e' using that by (rule c8)
    show "length (edge (graphs h3 fg)) = 2 * ?E" if "loop_free ?G" using that by (rule c9)
  qed
qed

lemma convert_to_fg_plain:
  fixes h :: "'a heap"
  assumes gr: "graph < next_ref h" and G: "is_graph (graphs h graph)"
    and tv: "\<forall>i. node_type (vnode i) = Some variable_node"
    and tf: "\<forall>i. node_type (fnode i NoneV) = Some factor_node"
    and iv: "inj vnode" and ifn: "inj (\<lambda>i. fnode i NoneV)"
  shows "\<exists>h' g Vs. convert_to_fg graph vnode fnode False h = Inr (next_ref h, h')
     \<and> inj_on g (set (nodes (graphs h graph)))
     \<and> (\<forall>i < length (nodes (graphs h graph)).
           g (nodes (graphs h graph) ! i) = vnode (length (nodes (graphs h graph)) - 1 - i))
     \<and> distinct Vs \<and> set Vs = g ` set (nodes (graphs h graph))
     \<and> nodes (graphs h' (next_ref h)) =
          Vs @ map (\<lambda>k. fnode k NoneV) (rev [0..<number_of_edges (graphs h graph)])
     \<and> (\<forall>x. node_attr (graphs h' (next_ref h)) x ''type'' =
          (if x \<in> (\<lambda>k. fnode k NoneV) ` {0..<number_of_edges (graphs h graph)}
           then Some (TypeV factor_node)
           else if x \<in> set Vs then Some (TypeV variable_node) else None))
     \<and> (\<forall>n \<in> set (nodes (graphs h graph)).
           node_attr (graphs h' (next_ref h)) (g n) ''origin'' = Some (NodeV n))
     \<and> (\<forall>x. x \<notin> set Vs \<longrightarrow> node_attr (graphs h' (next_ref h)) x ''origin'' = None)
     \<and> (\<forall>e' \<in> set (edge_keys (graphs h' (next_ref h))). \<exists>k < number_of_edges (graphs h graph).
           (fst e' \<in> set Vs \<and> snd e' = fnode k NoneV) \<or> (fst e' = fnode k NoneV \<and> snd e' \<in> set Vs))
     \<and> (loop_free (graphs h graph) \<longrightarrow>
           number_of_edges (graphs h' (next_ref h)) = 2 * number_of_edges (graphs h graph))"
proof -
  let ?G = "graphs h graph"
  let ?ns = "nodes ?G"
  let ?E = "number_of_edges ?G"
  let ?fg = "next_ref h"
  let ?h0 = "h\<lparr>graphs := (graphs h)(next_ref h := empty_graph), next_ref := Suc (next_ref h)\<rparr>"
  have G0: "graphs ?h0 graph = graphs h graph" using gr by simp
  have fgn: "?fg \<noteq> next_ref ?h0" by simp
  have emp: "graphs ?h0 ?fg = empty_graph" by simp
  have G': "is_graph (graphs ?h0 graph)" unfolding G0 by (rule G)
  from convert_plain_spec [where h = ?h0 and fg = ?fg and graph = graph and vnode = vnode
      and fnode = fnode, OF fgn emp G' tv tf iv ifn, unfolded G0]
  obtain m1 h3 Vs where
    cp: "convert_plain graph ?fg vnode fnode (zip ?ns ?ns) ?h0 = Inr (m1, h3)"
    and k: "map fst m1 = ?ns"
    and g: "\<forall>i < length ?ns. get_default m1 (?ns ! i) = vnode (length ?ns - 1 - i)"
    and inj: "inj_on (get_default m1) (set ?ns)"
    and Vd: "distinct Vs" and Vset: "set Vs = get_default m1 ` set ?ns"
    and n3: "nodes (graphs h3 ?fg) = Vs @ map (\<lambda>k. fnode k NoneV) (rev [0..<?E])"
    and a3: "\<forall>x key. node_attr (graphs h3 ?fg) x key =
          (if x \<in> (\<lambda>k. fnode k NoneV) ` {0..<?E}
           then (if key = ''type'' then Some (TypeV factor_node) else None)
           else if x \<in> set Vs then (if key = ''type'' then Some (TypeV variable_node) else None)
           else None)"
    and e3: "\<forall>e' \<in> set (edge_keys (graphs h3 ?fg)). \<exists>k < ?E.
           (fst e' \<in> set Vs \<and> snd e' = fnode k NoneV) \<or> (fst e' = fnode k NoneV \<and> snd e' \<in> set Vs)"
    and l3: "loop_free ?G \<longrightarrow> length (edge (graphs h3 ?fg)) = 2 * ?E"
    by blast
  let ?g = "get_default m1"
  have dns: "distinct ?ns" using G by (simp add: is_graph_def)
  have mk: "distinct (map fst m1)" unfolding k by (rule dns)
  have fm: "fst ` set m1 = set ?ns" by (simp only: set_map [symmetric] k)
  have keys: "fst ` set (invert m1) = set Vs"
    unfolding invert_keys mapping_values [OF mk] fm Vset ..
  have sub: "fst ` set (invert m1) \<subseteq> set (nodes (graphs h3 ?fg))"
    unfolding keys n3 by simp
  from set_node_attributes_spec [OF sub invert_distinct, of "''origin''"] obtain h4 where
    sna: "set_node_attributes ?fg ''origin'' (invert m1) h3 = Inr h4"
    and n4: "nodes (graphs h4 ?fg) = nodes (graphs h3 ?fg)"
    and e4: "edge (graphs h4 ?fg) = edge (graphs h3 ?fg)"
    and a4: "\<forall>x key. node_attr (graphs h4 ?fg) x key =
          (if key = ''origin'' \<and> x \<in> fst ` set (invert m1) then map_of (invert m1) x
           else node_attr (graphs h3 ?fg) x key)"
    by blast
  have c1: "convert_to_fg graph vnode fnode False h = Inr (?fg, h4)"
    unfolding convert_to_fg_unfold by (simp only: cp sna if_False sum.case prod.case)
  have c2: "node_attr (graphs h4 ?fg) x ''type'' =
          (if x \<in> (\<lambda>k. fnode k NoneV) ` {0..<?E} then Some (TypeV factor_node)
           else if x \<in> set Vs then Some (TypeV variable_node) else None)" for x
    unfolding a4 [rule_format] a3 [rule_format] by simp
  have c3: "node_attr (graphs h4 ?fg) (?g n) ''origin'' = Some (NodeV n)" if n: "n \<in> set ?ns" for n
  proof -
    from n have "?g n \<in> set Vs" unfolding Vset by (rule imageI)
    then have "node_attr (graphs h4 ?fg) (?g n) ''origin'' = map_of (invert m1) (?g n)"
      unfolding a4 [rule_format] keys by simp
    also have "\<dots> = Some (NodeV n)"
      by (rule invert_origin [OF mk]) (use inj n fm in auto)
    finally show ?thesis .
  qed
  have c4: "node_attr (graphs h4 ?fg) x ''origin'' = None" if "x \<notin> set Vs" for x
    unfolding a4 [rule_format] keys a3 [rule_format] using that by simp
  have c5: "number_of_edges (graphs h4 ?fg) = 2 * ?E" if "loop_free ?G"
    unfolding number_of_edges_def [of "graphs h4 ?fg"] e4 using l3 that by simp
  show ?thesis
  proof (intro exI [of _ h4] exI [of _ ?g] exI [of _ Vs] conjI allI ballI impI)
    show "convert_to_fg graph vnode fnode False h = Inr (?fg, h4)" by (rule c1)
    show "inj_on ?g (set ?ns)" by (rule inj)
    show "?g (?ns ! i) = vnode (length ?ns - 1 - i)" if "i < length ?ns" for i
      using g that by simp
    show "distinct Vs" by (rule Vd)
    show "set Vs = ?g ` set ?ns" by (rule Vset)
    show "nodes (graphs h4 ?fg) = Vs @ map (\<lambda>k. fnode k NoneV) (rev [0..<?E])"
      unfolding n4 by (rule n3)
    show "node_attr (graphs h4 ?fg) x ''type'' =
          (if x \<in> (\<lambda>k. fnode k NoneV) ` {0..<?E} then Some (TypeV factor_node)
           else if x \<in> set Vs then Some (TypeV variable_node) else None)" for x by (rule c2)
    show "node_attr (graphs h4 ?fg) (?g n) ''origin'' = Some (NodeV n)" if "n \<in> set ?ns" for n
      using that by (rule c3)
    show "node_attr (graphs h4 ?fg) x ''origin'' = None" if "x \<notin> set Vs" for x
      using that by (rule c4)
    show "\<exists>k < ?E. (fst e' \<in> set Vs \<and> snd e' = fnode k NoneV)
             \<or> (fst e' = fnode k NoneV \<and> snd e' \<in> set Vs)"
      if "e' \<in> set (edge_keys (graphs h4 ?fg))" for e'
      using that e3 unfolding e4 by blast
    show "number_of_edges (graphs h4 ?fg) = 2 * ?E" if "loop_free ?G" using that by (rule c5)
  qed
qed

subsection \<open>The bipartite conversion\<close>

lemma bipartite_mapping:
  assumes "distinct ns" "set vn \<subseteq> set ns" "set fn \<subseteq> set ns" "distinct vn" "distinct fn"
    and "set vn \<inter> set fn = {}"
  shows "\<exists>m1 m2.
       (update_pop (zip ns ns) vn (map vnode [0..<length vn]) :: 'e error + ('k \<times> 'k) list) = Inr m1
     \<and> (update_pop m1 fn (map fnode [0..<length fn]) :: 'e error + ('k \<times> 'k) list) = Inr m2
     \<and> map fst m2 = ns
     \<and> (\<forall>i < length vn. get_default m2 (vn ! i) = vnode (length vn - 1 - i))
     \<and> (\<forall>j < length fn. get_default m2 (fn ! j) = fnode (length fn - 1 - j))
     \<and> (\<forall>n. n \<notin> set vn \<union> set fn \<longrightarrow> get_default m2 n = n)"
proof -
  have z: "map fst (zip ns ns) = ns" by (simp add: map_fst_zip)
  have zs: "fst ` set (zip ns ns) = set ns" by (simp only: set_map [symmetric] z)
  have len1: "length (map vnode [0..<length vn]) = length vn" by simp
  from update_pop_spec [OF len1 assms(4), of "zip ns ns"] obtain m1 where
    run1: "(update_pop (zip ns ns) vn (map vnode [0..<length vn]) :: 'e error + ('k \<times> 'k) list) = Inr m1"
    and idx1: "\<forall>i < length vn. map_of m1 (vn ! i) = Some (map vnode [0..<length vn] ! (length vn - 1 - i))"
    and oth1: "\<forall>k. k \<notin> set vn \<longrightarrow> map_of m1 k = map_of (zip ns ns) k"
    and keys1: "set vn \<subseteq> fst ` set (zip ns ns) \<longrightarrow> map fst m1 = map fst (zip ns ns)"
    by blast
  have k1: "map fst m1 = ns" using keys1 assms(2) unfolding zs z by simp
  have ms1: "fst ` set m1 = set ns" by (simp only: set_map [symmetric] k1)
  have len2: "length (map fnode [0..<length fn]) = length fn" by simp
  from update_pop_spec [OF len2 assms(5), of m1] obtain m2 where
    run2: "(update_pop m1 fn (map fnode [0..<length fn]) :: 'e error + ('k \<times> 'k) list) = Inr m2"
    and idx2: "\<forall>j < length fn. map_of m2 (fn ! j) = Some (map fnode [0..<length fn] ! (length fn - 1 - j))"
    and oth2: "\<forall>k. k \<notin> set fn \<longrightarrow> map_of m2 k = map_of m1 k"
    and keys2: "set fn \<subseteq> fst ` set m1 \<longrightarrow> map fst m2 = map fst m1"
    by blast
  have k2: "map fst m2 = ns" using keys2 assms(3) unfolding ms1 k1 by simp
  have gv: "get_default m2 (vn ! i) = vnode (length vn - 1 - i)" if i: "i < length vn" for i
  proof -
    from i have "vn ! i \<in> set vn" by simp
    with assms(6) have "vn ! i \<notin> set fn" by auto
    with oth2 have "map_of m2 (vn ! i) = map_of m1 (vn ! i)" by simp
    with idx1 i show ?thesis by (simp add: get_default_def)
  qed
  have gf: "get_default m2 (fn ! j) = fnode (length fn - 1 - j)" if j: "j < length fn" for j
    using idx2 j by (simp add: get_default_def)
  have go: "get_default m2 n = n" if n: "n \<notin> set vn \<union> set fn" for n
  proof -
    from n oth1 oth2 have eq: "map_of m2 n = map_of (zip ns ns) n" by simp
    show ?thesis
    proof (cases "n \<in> set ns")
      case True
      then show ?thesis unfolding get_default_def eq by (simp add: map_of_zip_same)
    next
      case False
      then have "n \<notin> fst ` set (zip ns ns)" unfolding zs .
      then have none: "map_of (zip ns ns) n = None" by (rule map_of_notin)
      show ?thesis by (simp only: get_default_def eq none option.case)
    qed
  qed
  from run1 run2 k2 gv gf go show ?thesis by blast
qed

lemma convert_bipartite_unfold:
  "convert_bipartite graph fg vnode fnode m h =
     (case select_nodes ''bipartite'' (IntV 0) (node (graphs h graph)) of
        Inl e \<Rightarrow> Inl e
      | Inr vn \<Rightarrow>
     (case select_nodes ''bipartite'' (IntV 1) (node (graphs h graph)) of
        Inl e \<Rightarrow> Inl e
      | Inr fn \<Rightarrow>
     (case update_pop m vn (map vnode [0..<length vn]) of
        Inl e \<Rightarrow> Inl e
      | Inr m1 \<Rightarrow>
     (case update_pop m1 fn (map (\<lambda>i. fnode i NoneV) [0..<length fn]) of
        Inl e \<Rightarrow> Inl e
      | Inr m2 \<Rightarrow>
     (case set_nodes fg (nodes (graphs (snd (relabel_nodes graph m2 h)) (next_ref h)))
             (snd (relabel_nodes graph m2 h)) of
        Inl e \<Rightarrow> Inl e
      | Inr h2 \<Rightarrow> Inr (m2, set_edges fg (edges (graphs h2 (next_ref h))) h2))))))"
  by (simp add: convert_bipartite_def relabel_nodes_def new_graph_def split: sum.splits)

lemma convert_bipartite_spec:
  fixes h :: "'a heap"
  assumes fgn: "fg \<noteq> next_ref h" and emp: "graphs h fg = empty_graph"
    and G: "is_graph (graphs h graph)"
    and lab: "\<forall>n \<in> set (nodes (graphs h graph)). node_attr (graphs h graph) n ''bipartite'' \<noteq> None"
    and tv: "\<forall>i. node_type (vnode i) = Some variable_node"
    and tf: "\<forall>i. node_type (fnode i NoneV) = Some factor_node"
    and iv: "inj vnode" and ifn: "inj (\<lambda>i. fnode i NoneV)"
    and oth: "\<forall>n \<in> set (nodes (graphs h graph)).
        node_attr (graphs h graph) n ''bipartite'' \<noteq> Some (IntV 0) \<longrightarrow>
        node_attr (graphs h graph) n ''bipartite'' \<noteq> Some (IntV 1) \<longrightarrow>
        node_type n \<noteq> None \<and> n \<notin> range vnode \<and> n \<notin> range (\<lambda>i. fnode i NoneV)"
    and vn: "vn = filter (\<lambda>n. node_attr (graphs h graph) n ''bipartite'' = Some (IntV 0))
                    (nodes (graphs h graph))"
    and fn: "fn = filter (\<lambda>n. node_attr (graphs h graph) n ''bipartite'' = Some (IntV 1))
                    (nodes (graphs h graph))"
  shows "\<exists>m2 h3.
       convert_bipartite graph fg vnode fnode
         (zip (nodes (graphs h graph)) (nodes (graphs h graph))) h = Inr (m2, h3)
     \<and> map fst m2 = nodes (graphs h graph)
     \<and> (\<forall>i < length vn. get_default m2 (vn ! i) = vnode (length vn - 1 - i))
     \<and> (\<forall>j < length fn. get_default m2 (fn ! j) = fnode (length fn - 1 - j) NoneV)
     \<and> (\<forall>n. n \<notin> set vn \<union> set fn \<longrightarrow> get_default m2 n = n)
     \<and> inj_on (get_default m2) (set (nodes (graphs h graph)))
     \<and> distinct (nodes (graphs h3 fg))
     \<and> set (nodes (graphs h3 fg)) = get_default m2 ` set (nodes (graphs h graph))
     \<and> (\<forall>x key. node_attr (graphs h3 fg) x key =
          (if x \<in> get_default m2 ` set (nodes (graphs h graph))
           then (if key = ''type'' then map_option TypeV (node_type x) else None)
           else None))
     \<and> (\<forall>e' \<in> set (edge_keys (graphs h3 fg)). \<exists>e0 \<in> set (edge_keys (graphs h graph)).
           same_edge e' (relabel_edge (get_default m2) e0))"
proof -
  let ?G = "graphs h graph"
  let ?ns = "nodes ?G"
  have dns: "distinct ?ns" using G by (simp add: is_graph_def)
  have sel0: "select_nodes ''bipartite'' (IntV 0) (node ?G) = Inr vn"
    unfolding vn by (rule select_nodes_attr [OF dns lab])
  have sel1: "select_nodes ''bipartite'' (IntV 1) (node ?G) = Inr fn"
    unfolding fn by (rule select_nodes_attr [OF dns lab])
  have b1: "set vn \<subseteq> set ?ns" "set fn \<subseteq> set ?ns" unfolding vn fn by auto
  have b2: "distinct vn" "distinct fn" unfolding vn fn using dns by auto
  have b3: "set vn \<inter> set fn = {}" unfolding vn fn by auto
  from bipartite_mapping [OF dns b1 b2 b3, of vnode "\<lambda>i. fnode i NoneV"] obtain m1 m2 where
    up1: "(update_pop (zip ?ns ?ns) vn (map vnode [0..<length vn])
            :: 'a error + ('a Node \<times> 'a Node) list) = Inr m1"
    and up2: "(update_pop m1 fn (map (\<lambda>i. fnode i NoneV) [0..<length fn])
            :: 'a error + ('a Node \<times> 'a Node) list) = Inr m2"
    and k: "map fst m2 = ?ns"
    and gv: "\<forall>i < length vn. get_default m2 (vn ! i) = vnode (length vn - 1 - i)"
    and gf: "\<forall>j < length fn. get_default m2 (fn ! j) = fnode (length fn - 1 - j) NoneV"
    and go: "\<forall>n. n \<notin> set vn \<union> set fn \<longrightarrow> get_default m2 n = n"
    by blast
  let ?g = "get_default m2"
  have cls: "(\<exists>i. ?g n = vnode i) \<or> (\<exists>j. ?g n = fnode j NoneV)
      \<or> (?g n = n \<and> node_type n \<noteq> None \<and> n \<notin> range vnode \<and> n \<notin> range (\<lambda>i. fnode i NoneV))"
    if n: "n \<in> set ?ns" for n
  proof -
    consider (v) "n \<in> set vn" | (f) "n \<in> set fn" | (o) "n \<notin> set vn \<union> set fn" by blast
    then show ?thesis
    proof cases
      case v
      then obtain i where "i < length vn" "n = vn ! i" by (auto simp: in_set_conv_nth)
      with gv show ?thesis by auto
    next
      case f
      then obtain j where "j < length fn" "n = fn ! j" by (auto simp: in_set_conv_nth)
      with gf show ?thesis by auto
    next
      case o
      with n have "node_attr ?G n ''bipartite'' \<noteq> Some (IntV 0)"
        "node_attr ?G n ''bipartite'' \<noteq> Some (IntV 1)" unfolding vn fn by auto
      with oth n have "node_type n \<noteq> None \<and> n \<notin> range vnode \<and> n \<notin> range (\<lambda>i. fnode i NoneV)"
        by blast
      with go o show ?thesis by simp
    qed
  qed
  have inj: "inj_on ?g (set ?ns)"
  proof (rule inj_onI)
    fix a b assume a: "a \<in> set ?ns" and b: "b \<in> set ?ns" and eq: "?g a = ?g b"
    have vf: "vnode i \<noteq> fnode j NoneV" for i j
    proof
      assume "vnode i = fnode j NoneV"
      then have "node_type (vnode i) = node_type (fnode j NoneV)" by simp
      with tv tf show False by simp
    qed
    consider (v) "a \<in> set vn" | (f) "a \<in> set fn" | (o) "a \<notin> set vn \<union> set fn" by blast
    then show "a = b"
    proof cases
      case v
      then obtain i where i: "i < length vn" "a = vn ! i" by (auto simp: in_set_conv_nth)
      with gv have ga: "?g a = vnode (length vn - 1 - i)" by simp
      consider (v') "b \<in> set vn" | (f') "b \<in> set fn" | (o') "b \<notin> set vn \<union> set fn" by blast
      then show ?thesis
      proof cases
        case v'
        then obtain j where j: "j < length vn" "b = vn ! j" by (auto simp: in_set_conv_nth)
        with gv have "?g b = vnode (length vn - 1 - j)" by simp
        with ga eq have "vnode (length vn - 1 - i) = vnode (length vn - 1 - j)" by simp
        from injD [OF iv this] i(1) j(1) have "i = j" by arith
        with i j show ?thesis by simp
      next
        case f'
        then obtain j where j: "j < length fn" "b = fn ! j" by (auto simp: in_set_conv_nth)
        with gf have gb: "?g b = fnode (length fn - 1 - j) NoneV" by simp
        from ga eq gb have "vnode (length vn - 1 - i) = fnode (length fn - 1 - j) NoneV"
          by simp
        with vf show ?thesis by blast
      next
        case o'
        with go have gb: "?g b = b" by simp
        from o' b have "node_attr ?G b ''bipartite'' \<noteq> Some (IntV 0)"
          "node_attr ?G b ''bipartite'' \<noteq> Some (IntV 1)" unfolding vn fn by auto
        with oth b have "b \<notin> range vnode" by blast
        with ga eq gb show ?thesis by auto
      qed
    next
      case f
      then obtain i where i: "i < length fn" "a = fn ! i" by (auto simp: in_set_conv_nth)
      with gf have ga: "?g a = fnode (length fn - 1 - i) NoneV" by simp
      consider (v') "b \<in> set vn" | (f') "b \<in> set fn" | (o') "b \<notin> set vn \<union> set fn" by blast
      then show ?thesis
      proof cases
        case v'
        then obtain j where j: "j < length vn" "b = vn ! j" by (auto simp: in_set_conv_nth)
        with gv have gb: "?g b = vnode (length vn - 1 - j)" by simp
        from ga eq gb have "vnode (length vn - 1 - j) = fnode (length fn - 1 - i) NoneV"
          by simp
        with vf show ?thesis by blast
      next
        case f'
        then obtain j where j: "j < length fn" "b = fn ! j" by (auto simp: in_set_conv_nth)
        with gf have "?g b = fnode (length fn - 1 - j) NoneV" by simp
        with ga eq have "(\<lambda>i. fnode i NoneV) (length fn - 1 - i) = (\<lambda>i. fnode i NoneV) (length fn - 1 - j)"
          by simp
        from injD [OF ifn this] i(1) j(1) have "i = j" by arith
        with i j show ?thesis by simp
      next
        case o'
        with go have gb: "?g b = b" by simp
        from o' b have "node_attr ?G b ''bipartite'' \<noteq> Some (IntV 0)"
          "node_attr ?G b ''bipartite'' \<noteq> Some (IntV 1)" unfolding vn fn by auto
        with oth b have "b \<notin> range (\<lambda>i. fnode i NoneV)" by blast
        with ga eq gb show ?thesis by auto
      qed
    next
      case o
      with go have ga: "?g a = a" by simp
      from o a have "node_attr ?G a ''bipartite'' \<noteq> Some (IntV 0)"
        "node_attr ?G a ''bipartite'' \<noteq> Some (IntV 1)" unfolding vn fn by auto
      with oth a have na: "a \<notin> range vnode" "a \<notin> range (\<lambda>i. fnode i NoneV)" by blast+
      consider (v') "b \<in> set vn" | (f') "b \<in> set fn" | (o') "b \<notin> set vn \<union> set fn" by blast
      then show ?thesis
      proof cases
        case v'
        then obtain j where j: "j < length vn" "b = vn ! j" by (auto simp: in_set_conv_nth)
        with gv have "?g b = vnode (length vn - 1 - j)" by simp
        with ga eq na show ?thesis by auto
      next
        case f'
        then obtain j where j: "j < length fn" "b = fn ! j" by (auto simp: in_set_conv_nth)
        with gf have "?g b = fnode (length fn - 1 - j) NoneV" by simp
        with ga eq na show ?thesis by auto
      next
        case o'
        with go have "?g b = b" by simp
        with ga eq show ?thesis by simp
      qed
    qed
  qed
  let ?H = "relabel_copy ?G m2"
  let ?h1 = "snd (relabel_nodes graph m2 h)"
  let ?Vs = "nodes ?H"
  have H: "graphs ?h1 (next_ref h) = ?H" by (simp add: relabel_nodes_graphs)
  have F1: "graphs ?h1 fg = empty_graph" using fgn emp by (simp add: relabel_nodes_graphs)
  have Vset: "set ?Vs = ?g ` set ?ns" by (rule relabel_copy_nodes [OF G])
  have Vd: "distinct ?Vs" by (rule relabel_copy_nodes_distinct)
  have s1: "\<forall>x \<in> set ?Vs. node_type x \<noteq> None"
  proof
    fix x assume "x \<in> set ?Vs"
    with Vset obtain n where n: "n \<in> set ?ns" "x = ?g n" by auto
    from cls [OF n(1)] tv tf show "node_type x \<noteq> None" unfolding n(2) by auto
  qed
  have s3: "set ?Vs \<inter> set (nodes (graphs ?h1 fg)) = {}"
    unfolding F1 by (simp add: nodes_def empty_graph_def)
  from set_nodes_spec [OF s1 Vd s3] obtain h2 where
    sn: "set_nodes fg ?Vs ?h1 = Inr h2"
    and n2: "nodes (graphs h2 fg) = nodes (graphs ?h1 fg) @ ?Vs"
    and e2: "edge (graphs h2 fg) = edge (graphs ?h1 fg)"
    and a2: "\<forall>x key. node_attr (graphs h2 fg) x key =
          (if x \<in> set ?Vs then (if key = ''type'' then map_option TypeV (node_type x) else None)
           else node_attr (graphs ?h1 fg) x key)"
    by blast
  have n2': "nodes (graphs h2 fg) = ?Vs"
    unfolding n2 F1 by (simp add: nodes_def empty_graph_def)
  have e2': "edge (graphs h2 fg) = []"
    unfolding e2 F1 by (simp add: empty_graph_def)
  have a2': "node_attr (graphs h2 fg) x key =
      (if x \<in> ?g ` set ?ns then (if key = ''type'' then map_option TypeV (node_type x) else None)
       else None)" for x key
    unfolding a2 [rule_format] F1 Vset by (simp add: node_attr_def empty_graph_def)
  have H2: "graphs h2 (next_ref h) = ?H"
    using set_nodes_frame [OF sn] fgn H by simp
  let ?h3 = "set_edges fg (edges ?H) h2"
  have ep: "\<forall>e \<in> set (edges ?H). fst e \<in> set (nodes (graphs h2 fg)) \<and> snd e \<in> set (nodes (graphs h2 fg))"
    unfolding n2' using edges_endpoints [OF relabel_copy_is_graph [OF G inj]] by blast
  from set_edges_spec [OF ep] have
    nd3: "node (graphs ?h3 fg) = node (graphs h2 fg)"
    and k3: "set (edge_keys (graphs ?h3 fg)) \<subseteq> set (edge_keys (graphs h2 fg)) \<union> set (edges ?H)"
    by blast+
  have sn': "set_nodes fg (nodes (graphs ?h1 (next_ref h))) ?h1 = Inr h2"
    unfolding H by (rule sn)
  have c1: "convert_bipartite graph fg vnode fnode (zip ?ns ?ns) h = Inr (m2, ?h3)"
    unfolding convert_bipartite_unfold by (simp only: sel0 sel1 up1 up2 sn' sum.case H2)
  have c2: "nodes (graphs ?h3 fg) = ?Vs" using nd3 n2' by (simp add: nodes_def)
  have c3: "node_attr (graphs ?h3 fg) x key =
      (if x \<in> ?g ` set ?ns then (if key = ''type'' then map_option TypeV (node_type x) else None)
       else None)" for x key
    using a2' [of x key] nd3 by (simp add: node_attr_def)
  have c4: "\<exists>e0 \<in> set (edge_keys ?G). same_edge e' (relabel_edge ?g e0)"
    if "e' \<in> set (edge_keys (graphs ?h3 fg))" for e'
  proof -
    from that k3 e2' have "e' \<in> set (edges ?H)" by auto
    then show ?thesis by (rule relabel_copy_edges_mem)
  qed
  show ?thesis
  proof (intro exI [of _ m2] exI [of _ ?h3] conjI allI ballI impI)
    show "convert_bipartite graph fg vnode fnode (zip ?ns ?ns) h = Inr (m2, ?h3)" by (rule c1)
    show "map fst m2 = ?ns" by (rule k)
    show "?g (vn ! i) = vnode (length vn - 1 - i)" if "i < length vn" for i using gv that by simp
    show "?g (fn ! j) = fnode (length fn - 1 - j) NoneV" if "j < length fn" for j
      using gf that by simp
    show "?g n = n" if "n \<notin> set vn \<union> set fn" for n using go that by simp
    show "inj_on ?g (set ?ns)" by (rule inj)
    show "distinct (nodes (graphs ?h3 fg))" unfolding c2 by (rule Vd)
    show "set (nodes (graphs ?h3 fg)) = ?g ` set ?ns" unfolding c2 by (rule Vset)
    show "node_attr (graphs ?h3 fg) x key =
      (if x \<in> ?g ` set ?ns then (if key = ''type'' then map_option TypeV (node_type x) else None)
       else None)" for x key by (rule c3)
    show "\<exists>e0 \<in> set (edge_keys ?G). same_edge e' (relabel_edge ?g e0)"
      if "e' \<in> set (edge_keys (graphs ?h3 fg))" for e' using that by (rule c4)
  qed
qed

lemma convert_to_fg_bipartite:
  fixes h :: "'a heap"
  assumes gr: "graph < next_ref h" and G: "is_graph (graphs h graph)"
    and lab: "\<forall>n \<in> set (nodes (graphs h graph)). node_attr (graphs h graph) n ''bipartite'' \<noteq> None"
    and tv: "\<forall>i. node_type (vnode i) = Some variable_node"
    and tf: "\<forall>i. node_type (fnode i NoneV) = Some factor_node"
    and iv: "inj vnode" and ifn: "inj (\<lambda>i. fnode i NoneV)"
    and oth: "\<forall>n \<in> set (nodes (graphs h graph)).
        node_attr (graphs h graph) n ''bipartite'' \<noteq> Some (IntV 0) \<longrightarrow>
        node_attr (graphs h graph) n ''bipartite'' \<noteq> Some (IntV 1) \<longrightarrow>
        node_type n \<noteq> None \<and> n \<notin> range vnode \<and> n \<notin> range (\<lambda>i. fnode i NoneV)"
    and vn: "vn = filter (\<lambda>n. node_attr (graphs h graph) n ''bipartite'' = Some (IntV 0))
                    (nodes (graphs h graph))"
    and fn: "fn = filter (\<lambda>n. node_attr (graphs h graph) n ''bipartite'' = Some (IntV 1))
                    (nodes (graphs h graph))"
  shows "\<exists>h' g. convert_to_fg graph vnode fnode True h = Inr (next_ref h, h')
     \<and> inj_on g (set (nodes (graphs h graph)))
     \<and> (\<forall>i < length vn. g (vn ! i) = vnode (length vn - 1 - i))
     \<and> (\<forall>j < length fn. g (fn ! j) = fnode (length fn - 1 - j) NoneV)
     \<and> (\<forall>n. n \<notin> set vn \<union> set fn \<longrightarrow> g n = n)
     \<and> distinct (nodes (graphs h' (next_ref h)))
     \<and> set (nodes (graphs h' (next_ref h))) = g ` set (nodes (graphs h graph))
     \<and> (\<forall>n \<in> set (nodes (graphs h graph)).
           node_attr (graphs h' (next_ref h)) (g n) ''type'' = map_option TypeV (node_type (g n))
         \<and> node_attr (graphs h' (next_ref h)) (g n) ''origin'' = Some (NodeV n))
     \<and> (\<forall>e' \<in> set (edge_keys (graphs h' (next_ref h))). \<exists>e0 \<in> set (edge_keys (graphs h graph)).
           same_edge e' (relabel_edge g e0))"
proof -
  let ?G = "graphs h graph"
  let ?ns = "nodes ?G"
  let ?fg = "next_ref h"
  let ?h0 = "h\<lparr>graphs := (graphs h)(next_ref h := empty_graph), next_ref := Suc (next_ref h)\<rparr>"
  have G0: "graphs ?h0 graph = graphs h graph" using gr by simp
  have fgn: "?fg \<noteq> next_ref ?h0" by simp
  have emp: "graphs ?h0 ?fg = empty_graph" by simp
  have G': "is_graph (graphs ?h0 graph)" unfolding G0 by (rule G)
  have lab': "\<forall>n \<in> set (nodes (graphs ?h0 graph)). node_attr (graphs ?h0 graph) n ''bipartite'' \<noteq> None"
    unfolding G0 by (rule lab)
  have oth': "\<forall>n \<in> set (nodes (graphs ?h0 graph)).
        node_attr (graphs ?h0 graph) n ''bipartite'' \<noteq> Some (IntV 0) \<longrightarrow>
        node_attr (graphs ?h0 graph) n ''bipartite'' \<noteq> Some (IntV 1) \<longrightarrow>
        node_type n \<noteq> None \<and> n \<notin> range vnode \<and> n \<notin> range (\<lambda>i. fnode i NoneV)"
    unfolding G0 by (rule oth)
  have vn': "vn = filter (\<lambda>n. node_attr (graphs ?h0 graph) n ''bipartite'' = Some (IntV 0))
                    (nodes (graphs ?h0 graph))"
    unfolding G0 by (rule vn)
  have fn': "fn = filter (\<lambda>n. node_attr (graphs ?h0 graph) n ''bipartite'' = Some (IntV 1))
                    (nodes (graphs ?h0 graph))"
    unfolding G0 by (rule fn)
  from convert_bipartite_spec [where h = ?h0 and fg = ?fg and graph = graph and vnode = vnode
      and fnode = fnode and vn = vn and fn = fn,
      OF fgn emp G' lab' tv tf iv ifn oth' vn' fn', unfolded G0]
  obtain m2 h3 where
    cp: "convert_bipartite graph ?fg vnode fnode (zip ?ns ?ns) ?h0 = Inr (m2, h3)"
    and k: "map fst m2 = ?ns"
    and gv: "\<forall>i < length vn. get_default m2 (vn ! i) = vnode (length vn - 1 - i)"
    and gf: "\<forall>j < length fn. get_default m2 (fn ! j) = fnode (length fn - 1 - j) NoneV"
    and go: "\<forall>n. n \<notin> set vn \<union> set fn \<longrightarrow> get_default m2 n = n"
    and inj: "inj_on (get_default m2) (set ?ns)"
    and d3: "distinct (nodes (graphs h3 ?fg))"
    and n3: "set (nodes (graphs h3 ?fg)) = get_default m2 ` set ?ns"
    and a3: "\<forall>x key. node_attr (graphs h3 ?fg) x key =
          (if x \<in> get_default m2 ` set ?ns
           then (if key = ''type'' then map_option TypeV (node_type x) else None)
           else None)"
    and e3: "\<forall>e' \<in> set (edge_keys (graphs h3 ?fg)). \<exists>e0 \<in> set (edge_keys ?G).
           same_edge e' (relabel_edge (get_default m2) e0)"
    by blast
  let ?g = "get_default m2"
  have dns: "distinct ?ns" using G by (simp add: is_graph_def)
  have mk: "distinct (map fst m2)" unfolding k by (rule dns)
  have fm: "fst ` set m2 = set ?ns" by (simp only: set_map [symmetric] k)
  have keys: "fst ` set (invert m2) = ?g ` set ?ns"
    unfolding invert_keys mapping_values [OF mk] fm ..
  have sub: "fst ` set (invert m2) \<subseteq> set (nodes (graphs h3 ?fg))"
    unfolding keys n3 by simp
  from set_node_attributes_spec [OF sub invert_distinct, of "''origin''"] obtain h4 where
    sna: "set_node_attributes ?fg ''origin'' (invert m2) h3 = Inr h4"
    and n4: "nodes (graphs h4 ?fg) = nodes (graphs h3 ?fg)"
    and e4: "edge (graphs h4 ?fg) = edge (graphs h3 ?fg)"
    and a4: "\<forall>x key. node_attr (graphs h4 ?fg) x key =
          (if key = ''origin'' \<and> x \<in> fst ` set (invert m2) then map_of (invert m2) x
           else node_attr (graphs h3 ?fg) x key)"
    by blast
  have c1: "convert_to_fg graph vnode fnode True h = Inr (?fg, h4)"
    unfolding convert_to_fg_unfold by (simp only: cp sna if_True sum.case prod.case)
  have c2: "node_attr (graphs h4 ?fg) (?g n) ''type'' = map_option TypeV (node_type (?g n))"
    if n: "n \<in> set ?ns" for n
  proof -
    from n have "?g n \<in> ?g ` set ?ns" by (rule imageI)
    then show ?thesis unfolding a4 [rule_format] a3 [rule_format] by simp
  qed
  have c3: "node_attr (graphs h4 ?fg) (?g n) ''origin'' = Some (NodeV n)" if n: "n \<in> set ?ns" for n
  proof -
    from n have "?g n \<in> ?g ` set ?ns" by (rule imageI)
    then have "node_attr (graphs h4 ?fg) (?g n) ''origin'' = map_of (invert m2) (?g n)"
      unfolding a4 [rule_format] keys by simp
    also have "\<dots> = Some (NodeV n)"
      by (rule invert_origin [OF mk]) (use inj n fm in auto)
    finally show ?thesis .
  qed
  show ?thesis
  proof (intro exI [of _ h4] exI [of _ ?g] conjI allI ballI impI)
    show "convert_to_fg graph vnode fnode True h = Inr (?fg, h4)" by (rule c1)
    show "inj_on ?g (set ?ns)" by (rule inj)
    show "?g (vn ! i) = vnode (length vn - 1 - i)" if "i < length vn" for i using gv that by simp
    show "?g (fn ! j) = fnode (length fn - 1 - j) NoneV" if "j < length fn" for j
      using gf that by simp
    show "?g n = n" if "n \<notin> set vn \<union> set fn" for n using go that by simp
    show "distinct (nodes (graphs h4 ?fg))" unfolding n4 by (rule d3)
    show "set (nodes (graphs h4 ?fg)) = ?g ` set ?ns" unfolding n4 by (rule n3)
    show "node_attr (graphs h4 ?fg) (?g n) ''type'' = map_option TypeV (node_type (?g n))"
      if "n \<in> set ?ns" for n using that by (rule c2)
    show "node_attr (graphs h4 ?fg) (?g n) ''origin'' = Some (NodeV n)"
      if "n \<in> set ?ns" for n using that by (rule c3)
    show "\<exists>e0 \<in> set (edge_keys ?G). same_edge e' (relabel_edge ?g e0)"
      if "e' \<in> set (edge_keys (graphs h4 ?fg))" for e'
      using that e3 unfolding e4 by blast
  qed
qed

end
